theory Spec2Isabelle
  imports Complex_Main "HOL-Library.Multiset"
begin

section \<open>Molecular dynamics on the unit sphere: the kernel of davis.c\<close>

text \<open>
  The theory embeds the functions of \<^verbatim>\<open>davis.c\<close> in HOL.

  \<^item> A C \<^verbatim>\<open>double\<close> is a \<^typ>\<open>real\<close>: arithmetic is exact, there is no rounding, no
    overflow, no infinity and no NaN. Every statement below about vectors is therefore a
    statement in real arithmetic. Two places need care: HOL's \<open>x / 0\<close> is \<open>0\<close> and HOL's
    \<open>sqrt\<close> of a negative number is negative, where C yields an infinity or a NaN. The
    theorems that depend on a quotient or a root carry the hypothesis that makes the
    operation meaningful. The last section repeats the body of \<open>dvs_advance\<close> over a
    type with the IEEE special values, for the one property that is about them.
  \<^item> A C \<^verbatim>\<open>long\<close> or \<^verbatim>\<open>int\<close> is an \<^typ>\<open>int\<close>. Overflow of a counter or of the cell
    number is not modelled; the conversion \<^verbatim>\<open>(int)floor(..)\<close> is the mathematical floor,
    taken of the exact quotient. Which cell a coordinate close to a cell boundary falls
    into, and the order in which a sum of forces is formed, can differ between the model
    and the doubles of the C code; the statements about the cell sweep say so.
  \<^item> An array is a list, a pointer into it is an index. A read or write outside the array
    is undefined in C: in the model the operation returns \<open>None\<close>. A loop that does not
    terminate (a cyclic \<^verbatim>\<open>next\<close> chain) also yields \<open>None\<close>.
  \<^item> The record fields \<^verbatim>\<open>x y z\<close> of \<^verbatim>\<open>vec\<close> and \<^verbatim>\<open>r v a next\<close> of \<^verbatim>\<open>Particle\<close> carry a
    prefix (\<open>vec_x\<close>, \<open>p_r\<close>), since a one-letter constant would capture the variables of
    every later statement.
\<close>

subsection \<open>Vectors\<close>

text \<open>
  Modelled from the spec: the header \<^verbatim>\<open>davis.h\<close> with the type \<^verbatim>\<open>vec\<close>, the macros
  \<^verbatim>\<open>vec_inc\<close>, \<^verbatim>\<open>vec_dec\<close>, \<^verbatim>\<open>vec_sub\<close>, \<^verbatim>\<open>vec_sclr\<close>, \<^verbatim>\<open>vec_dot\<close>, \<^verbatim>\<open>vec_magnitude2\<close>,
  \<^verbatim>\<open>VEC_ZERO\<close>, \<^verbatim>\<open>MIN\<close>, \<^verbatim>\<open>MAX\<close> and the structs \<^verbatim>\<open>Particle\<close>, \<^verbatim>\<open>Cells\<close>, \<^verbatim>\<open>Stats\<close> is not
  among the sources. The spec describes them: a vector is an ordered triple of doubles,
  arithmetic is componentwise, dot product and squared magnitude are the Euclidean ones.
  \<open>vec_inc a b\<close> and \<open>vec_dec a b\<close> are the new value of the first argument, which the
  macro assigns in place.
\<close>

record vec =
  vec_x :: real
  vec_y :: real
  vec_z :: real

definition VEC_ZERO :: vec where
  "VEC_ZERO = \<lparr>vec_x = 0, vec_y = 0, vec_z = 0\<rparr>"

definition vec_inc :: "vec \<Rightarrow> vec \<Rightarrow> vec" where
  "vec_inc a b = \<lparr>vec_x = vec_x a + vec_x b, vec_y = vec_y a + vec_y b, vec_z = vec_z a + vec_z b\<rparr>"

definition vec_dec :: "vec \<Rightarrow> vec \<Rightarrow> vec" where
  "vec_dec a b = \<lparr>vec_x = vec_x a - vec_x b, vec_y = vec_y a - vec_y b, vec_z = vec_z a - vec_z b\<rparr>"

definition vec_sub :: "vec \<Rightarrow> vec \<Rightarrow> vec" where
  "vec_sub a b = \<lparr>vec_x = vec_x a - vec_x b, vec_y = vec_y a - vec_y b, vec_z = vec_z a - vec_z b\<rparr>"

definition vec_sclr :: "real \<Rightarrow> vec \<Rightarrow> vec" where
  "vec_sclr s a = \<lparr>vec_x = s * vec_x a, vec_y = s * vec_y a, vec_z = s * vec_z a\<rparr>"

definition vec_dot :: "vec \<Rightarrow> vec \<Rightarrow> real" where
  "vec_dot a b = vec_x a * vec_x b + vec_y a * vec_y b + vec_z a * vec_z b"

definition vec_magnitude2 :: "vec \<Rightarrow> real" where
  "vec_magnitude2 a = vec_dot a a"

lemmas vec_defs =
  VEC_ZERO_def vec_inc_def vec_dec_def vec_sub_def vec_sclr_def vec_dot_def vec_magnitude2_def

subsection \<open>Particles, statistics, the cell grid\<close>

record Particle =
  p_r :: vec
  p_v :: vec
  p_a :: vec
  p_next :: int

record Stats =
  ww_counter :: int
  real_ww_counter :: int
  E_pot :: real

record Cells =
  dr :: real
  binning :: int
  num_cells :: int
  cells :: "int list"

text \<open>The particle array together with the statistics sink: what a force sweep updates.\<close>

type_synonym state = "Particle list \<times> Stats"

subsection \<open>Arrays and loops\<close>

text \<open>\<open>rd xs i\<close> is the C read \<^verbatim>\<open>xs[i]\<close>, \<open>modify xs i f\<close> the update in place of \<^verbatim>\<open>xs[i]\<close>.\<close>

definition rd :: "'a list \<Rightarrow> int \<Rightarrow> 'a option" where
  "rd xs i = (if 0 \<le> i \<and> i < int (length xs) then Some (xs ! nat i) else None)"

definition modify :: "'a list \<Rightarrow> int \<Rightarrow> ('a \<Rightarrow> 'a) \<Rightarrow> 'a list option" where
  "modify xs i f =
     (if 0 \<le> i \<and> i < int (length xs) then Some (xs[nat i := f (xs ! nat i)]) else None)"

text \<open>The counting loop \<^verbatim>\<open>for (long i = i0; i < n; i++) body\<close>.\<close>

function for_loop :: "int \<Rightarrow> int \<Rightarrow> (int \<Rightarrow> 's \<Rightarrow> 's option) \<Rightarrow> 's \<Rightarrow> 's option" where
  "for_loop i n body s =
     (if i < n then (case body i s of None \<Rightarrow> None | Some s' \<Rightarrow> for_loop (i + 1) n body s')
      else Some s)"
  by pat_completeness auto
termination
  by (relation "measure (\<lambda>(i, n, body, s). nat (n - i))") auto

declare for_loop.simps [simp del]

text \<open>
  The list loop \<^verbatim>\<open>for (long i = head; i != -1; i = ps[i].next) body\<close>. The particle
  array is part of the state (\<open>arr\<close> selects it), and \<^verbatim>\<open>ps[i].next\<close> is read after the body
  has run. The loop need not terminate.
\<close>

partial_function (option) for_linked ::
  "('s \<Rightarrow> Particle list) \<Rightarrow> (int \<Rightarrow> 's \<Rightarrow> 's option) \<Rightarrow> int \<Rightarrow> 's \<Rightarrow> 's option" where
  "for_linked arr body i s =
     (if i = - 1 then Some s
      else Option.bind (body i s) (\<lambda>s'.
        Option.bind (rd (arr s') i) (\<lambda>p. for_linked arr body (p_next p) s')))"

subsection \<open>The integrator\<close>

text \<open>The body of the loop of \<^verbatim>\<open>dvs_advance\<close>, on the particle \<^verbatim>\<open>*p\<close>.\<close>

definition advance_body :: "real \<Rightarrow> real \<Rightarrow> Particle \<Rightarrow> Particle" where
  "advance_body dt dt_hlf p =
     (let old_r = p_r p;
          p = p\<lparr>p_v := vec_inc (p_v p) (vec_sclr dt_hlf (p_a p))\<rparr>;
          p = p\<lparr>p_r := vec_inc (p_r p) (vec_sclr dt (p_v p))\<rparr>;
          p = p\<lparr>p_a := VEC_ZERO\<rparr>;
          r0_dot_r = vec_dot old_r (p_r p);
          r0_sqr = vec_dot (p_r p) (p_r p);
          lambda = - r0_dot_r + sqrt (1 - r0_sqr + r0_dot_r * r0_dot_r);
          p = p\<lparr>p_r := vec_inc (p_r p) (vec_sclr lambda old_r)\<rparr>;
          p = p\<lparr>p_v := vec_inc (p_v p) (vec_sclr (lambda / dt) old_r)\<rparr>
      in p)"

definition dvs_advance :: "int \<Rightarrow> Particle list \<Rightarrow> real \<Rightarrow> Particle list option" where
  "dvs_advance nparticles ps dt =
     (let dt_hlf = 0.5 * dt
      in for_loop 0 nparticles (\<lambda>i ps. modify ps i (advance_body dt dt_hlf)) ps)"

definition correct_body :: "real \<Rightarrow> Particle \<Rightarrow> Particle" where
  "correct_body dt_hlf p =
     (let p = p\<lparr>p_v := vec_inc (p_v p) (vec_sclr dt_hlf (p_a p))\<rparr>;
          lambda = - vec_dot (p_v p) (p_r p);
          p = p\<lparr>p_v := vec_inc (p_v p) (vec_sclr lambda (p_r p))\<rparr>
      in p)"

definition dvs_correct :: "int \<Rightarrow> Particle list \<Rightarrow> real \<Rightarrow> Particle list option" where
  "dvs_correct nparticles ps dt =
     (let dt_hlf = 0.5 * dt
      in for_loop 0 nparticles (\<lambda>i ps. modify ps i (correct_body dt_hlf)) ps)"

subsection \<open>Accumulating partial forces\<close>

text \<open>
  \<^verbatim>\<open>vec_inc(accu[i].a, part[i].a)\<close>: the state is the pair of the two arrays, so that a
  write to \<open>part\<close> would show.
\<close>

definition dvs_collect_forces ::
  "int \<Rightarrow> Particle list \<Rightarrow> Particle list \<Rightarrow> (Particle list \<times> Particle list) option" where
  "dvs_collect_forces nparticles accu part =
     for_loop 0 nparticles
       (\<lambda>i (accu, part).
          case rd part i of None \<Rightarrow> None
          | Some q \<Rightarrow>
              map_option (\<lambda>accu'. (accu', part))
                (modify accu i (\<lambda>p. p\<lparr>p_a := vec_inc (p_a p) (p_a q)\<rparr>)))
       (accu, part)"

subsection \<open>The two-body force kernel\<close>

text \<open>
  \<^verbatim>\<open>dvs_calc_force(ps + i, ps + j, cutoff, gamma, stats)\<close>: the two pointers are indices
  into the particle array of the state. The second write reads the array after the first
  one, as the C code does when both pointers are the same.
\<close>

definition dvs_calc_force :: "int \<Rightarrow> int \<Rightarrow> real \<Rightarrow> real \<Rightarrow> state \<Rightarrow> state option" where
  "dvs_calc_force i j cutoff gamma s =
     (case s of (ps, stats) \<Rightarrow>
      case rd ps i of None \<Rightarrow> None | Some p \<Rightarrow>
      case rd ps j of None \<Rightarrow> None | Some q \<Rightarrow>
      let dr = vec_sub (p_r p) (p_r q);
          r2 = vec_magnitude2 dr;
          stats = stats\<lparr>ww_counter := ww_counter stats + 1\<rparr>;
          cutoff2 = cutoff * cutoff
      in if r2 < cutoff2 then
           let r = sqrt r2;
               stats = stats\<lparr>real_ww_counter := real_ww_counter stats + 1\<rparr>;
               force_mag = 1 / r2 - 1 / cutoff2;
               stats = stats\<lparr>E_pot := E_pot stats + (1 / r + r / cutoff2 - 2 / cutoff)\<rparr>;
               force = vec_sclr (force_mag / r) dr;
               dv = vec_sub (p_v p) (p_v q);
               damping = vec_sclr (- gamma) dv;
               force = vec_inc force damping
           in case modify ps i (\<lambda>p. p\<lparr>p_a := vec_inc (p_a p) force\<rparr>) of None \<Rightarrow> None
              | Some ps \<Rightarrow>
                case modify ps j (\<lambda>q. q\<lparr>p_a := vec_dec (p_a q) force\<rparr>) of None \<Rightarrow> None
                | Some ps \<Rightarrow> Some (ps, stats)
         else Some (ps, stats))"

subsection \<open>The cell grid\<close>

text \<open>
  \<^verbatim>\<open>Cells_new\<close>: \<^verbatim>\<open>malloc\<close> returns uninitialised memory, whose content is the parameter
  \<open>junk\<close>. The argument \<^verbatim>\<open>num_particles\<close> is not used by the C code.
\<close>

definition Cells_new :: "int \<Rightarrow> int \<Rightarrow> (nat \<Rightarrow> int) \<Rightarrow> Cells" where
  "Cells_new binning' num_particles junk =
     \<lparr>dr = 2 / real_of_int binning', binning = binning',
      num_cells = binning' * binning' * binning',
      cells = map junk [0..<nat (binning' * binning' * binning')]\<rparr>"

definition Cells_clear :: "Cells \<Rightarrow> Cells option" where
  "Cells_clear self =
     map_option (\<lambda>c. self\<lparr>cells := c\<rparr>)
       (for_loop 0 (num_cells self) (\<lambda>i c. modify c i (\<lambda>_. - 1)) (cells self))"

text \<open>\<^verbatim>\<open>MAX(0, MIN((int)floor((c + 1.0) / cells->dr), L - 1))\<close> for a coordinate \<open>c\<close>.\<close>

definition bin_index :: "Cells \<Rightarrow> real \<Rightarrow> int" where
  "bin_index cs c = max 0 (min \<lfloor>(c + 1) / dr cs\<rfloor> (binning cs - 1))"

definition cell_number :: "Cells \<Rightarrow> Particle \<Rightarrow> int" where
  "cell_number cs p =
     (let L = binning cs; L2 = L * L;
          bin_x = bin_index cs (vec_x (p_r p));
          bin_y = bin_index cs (vec_y (p_r p));
          bin_z = bin_index cs (vec_z (p_r p))
      in bin_x + bin_y * L + bin_z * L2)"

text \<open>The body of the loop of \<^verbatim>\<open>dvs_populate_cells\<close>: the pointer \<^verbatim>\<open>p\<close> is \<^verbatim>\<open>ps + i\<close>.\<close>

definition populate_step ::
  "int \<Rightarrow> Particle list \<times> Cells \<Rightarrow> (Particle list \<times> Cells) option" where
  "populate_step i s =
     (case s of (ps, cs) \<Rightarrow>
      case rd ps i of None \<Rightarrow> None
      | Some p \<Rightarrow>
        let cellNum = cell_number cs p
        in case rd (cells cs) cellNum of None \<Rightarrow> None
           | Some head \<Rightarrow>
             case modify ps i (\<lambda>p. p\<lparr>p_next := head\<rparr>) of None \<Rightarrow> None
             | Some ps \<Rightarrow>
               case modify (cells cs) cellNum (\<lambda>_. i) of None \<Rightarrow> None
               | Some c \<Rightarrow> Some (ps, cs\<lparr>cells := c\<rparr>))"

definition dvs_populate_cells ::
  "int \<Rightarrow> Particle list \<Rightarrow> Cells \<Rightarrow> (Particle list \<times> Cells) option" where
  "dvs_populate_cells nparticles ps cs =
     (case Cells_clear cs of None \<Rightarrow> None
      | Some cs \<Rightarrow> for_loop 0 nparticles populate_step (ps, cs))"

subsection \<open>The force sweeps\<close>

text \<open>
  \<^verbatim>\<open>dvs_calc_forces\<close>, from the inside out. \<open>same_cell_pairs\<close> and \<open>two_cell_pairs\<close> are the
  two double loops over the linked lists, for \<^verbatim>\<open>this_cell == other_cell\<close> and for
  \<^verbatim>\<open>this_cell < other_cell\<close>; \<open>head\<close> is \<^verbatim>\<open>cells->cells[this_cell]\<close> and \<open>head'\<close> is
  \<^verbatim>\<open>cells->cells[other_cell]\<close>.
\<close>

definition same_cell_pairs :: "real \<Rightarrow> real \<Rightarrow> int \<Rightarrow> state \<Rightarrow> state option" where
  "same_cell_pairs cutoff gamma head s =
     for_linked fst
       (\<lambda>i s. case rd (fst s) i of None \<Rightarrow> None
              | Some p \<Rightarrow> for_linked fst (\<lambda>j. dvs_calc_force i j cutoff gamma) (p_next p) s)
       head s"

definition two_cell_pairs :: "real \<Rightarrow> real \<Rightarrow> int \<Rightarrow> int \<Rightarrow> state \<Rightarrow> state option" where
  "two_cell_pairs cutoff gamma head head' s =
     for_linked fst (\<lambda>i. for_linked fst (\<lambda>j. dvs_calc_force i j cutoff gamma) head') head s"

text \<open>The body of the loop over \<^verbatim>\<open>nnx\<close>: one neighbour cell of \<^verbatim>\<open>this_cell\<close>.\<close>

definition neighbour_cell ::
  "Cells \<Rightarrow> real \<Rightarrow> real \<Rightarrow> int \<Rightarrow> int \<Rightarrow> int \<Rightarrow> int \<Rightarrow> state \<Rightarrow> state option" where
  "neighbour_cell cs cutoff gamma this_cell nnx nny nnz s =
     (let L = binning cs; L2 = L * L;
          other_cell = nnx + nny * L + nnz * L2
      in if this_cell > other_cell then Some s
         else if this_cell = other_cell then
           (case rd (cells cs) this_cell of None \<Rightarrow> None
            | Some head \<Rightarrow> same_cell_pairs cutoff gamma head s)
         else
           (case rd (cells cs) this_cell of None \<Rightarrow> None
            | Some head \<Rightarrow>
              case rd (cells cs) other_cell of None \<Rightarrow> None
              | Some head' \<Rightarrow> two_cell_pairs cutoff gamma head head' s))"

text \<open>The body of the loop over \<^verbatim>\<open>x\<close>: the main cell and its neighbourhood.\<close>

definition main_cell ::
  "Cells \<Rightarrow> int \<Rightarrow> int \<Rightarrow> real \<Rightarrow> real \<Rightarrow> int \<Rightarrow> int \<Rightarrow> int \<Rightarrow> state \<Rightarrow> state option" where
  "main_cell cs cell0 cell1 cutoff gamma x y z s =
     (let L = binning cs; L2 = L * L;
          this_cell = x + L * y + L2 * z
      in case rd (cells cs) this_cell of None \<Rightarrow> None
         | Some head \<Rightarrow>
           if head = - 1 then Some s
           else if this_cell < cell0 \<or> this_cell \<ge> cell1 then Some s
           else
             for_loop (max 0 (z - 1)) (min L (z + 2)) (\<lambda>nnz.
             for_loop (max 0 (y - 1)) (min L (y + 2)) (\<lambda>nny.
             for_loop (max 0 (x - 1)) (min L (x + 2)) (\<lambda>nnx.
               neighbour_cell cs cutoff gamma this_cell nnx nny nnz))) s)"

definition dvs_calc_forces ::
  "Cells \<Rightarrow> int \<Rightarrow> int \<Rightarrow> real \<Rightarrow> real \<Rightarrow> state \<Rightarrow> state option" where
  "dvs_calc_forces cs cell0 cell1 cutoff gamma s =
     (let L = binning cs
      in for_loop 0 L (\<lambda>z. for_loop 0 L (\<lambda>y. for_loop 0 L (\<lambda>x.
           main_cell cs cell0 cell1 cutoff gamma x y z))) s)"

definition dvs_calc_brute_forces ::
  "int \<Rightarrow> int \<Rightarrow> int \<Rightarrow> real \<Rightarrow> real \<Rightarrow> state \<Rightarrow> state option" where
  "dvs_calc_brute_forces nparticles first_particle last_particle cutoff gamma s =
     for_loop first_particle last_particle
       (\<lambda>i. for_loop (i + 1) nparticles (\<lambda>j. dvs_calc_force i j cutoff gamma)) s"

section \<open>Loops as folds\<close>

text \<open>The sequence of the state transformers \<open>f x\<close> for the elements \<open>x\<close> of a list, stopping at \<open>None\<close>.\<close>

fun ofold :: "('a \<Rightarrow> 's \<Rightarrow> 's option) \<Rightarrow> 'a list \<Rightarrow> 's \<Rightarrow> 's option" where
  "ofold f [] s = Some s"
| "ofold f (x # xs) s = (case f x s of None \<Rightarrow> None | Some s' \<Rightarrow> ofold f xs s')"

section \<open>Notions of the specification\<close>

text \<open>The Euclidean length of a vector.\<close>

definition vec_norm :: "vec \<Rightarrow> real" where
  "vec_norm a = sqrt (vec_magnitude2 a)"

text \<open>
  The predicted position of the spec's \<open>advance\<close>: \<open>v \<leftarrow> v + (dt/2) a\<close>, then
  \<open>r \<leftarrow> r + dt v\<close>; the discriminant \<open>1 - |r|\<^sup>2 + (r_old \<cdot> r)\<^sup>2\<close> and the multiplier
  \<open>\<lambda> = - (r_old \<cdot> r) + \<surd>(1 - |r|\<^sup>2 + (r_old \<cdot> r)\<^sup>2)\<close> of the position constraint.
\<close>

definition r_predicted :: "real \<Rightarrow> Particle \<Rightarrow> vec" where
  "r_predicted dt p = vec_inc (p_r p) (vec_sclr dt (vec_inc (p_v p) (vec_sclr (dt / 2) (p_a p))))"

definition discriminant :: "real \<Rightarrow> Particle \<Rightarrow> real" where
  "discriminant dt p =
     1 - vec_magnitude2 (r_predicted dt p) + (vec_dot (p_r p) (r_predicted dt p))\<^sup>2"

definition lambda_r :: "real \<Rightarrow> Particle \<Rightarrow> real" where
  "lambda_r dt p = - vec_dot (p_r p) (r_predicted dt p) + sqrt (discriminant dt p)"

text \<open>The shifted Coulomb potential and the magnitude of the radial force, as the spec writes them.\<close>

definition pair_potential :: "real \<Rightarrow> real \<Rightarrow> real" where
  "pair_potential rc r = 1 / r + r / rc\<^sup>2 - 2 / rc"

definition force_magnitude :: "real \<Rightarrow> real \<Rightarrow> real" where
  "force_magnitude rc r = 1 / r\<^sup>2 - 1 / rc\<^sup>2"

text \<open>
  The kernel as a function of the distance. Two particles at rest, one at \<open>(r, 0, 0)\<close> and
  one at the origin, with zero accelerations; \<open>kernel_energy rc r\<close> is the value of
  \<^verbatim>\<open>E_pot\<close> after one call of \<^verbatim>\<open>dvs_calc_force\<close> on them that starts from zero statistics,
  and \<open>kernel_force rc r\<close> is the \<open>x\<close> component of the acceleration that this call gives to
  the first particle (no damping: \<open>gamma = 0\<close>).
\<close>

definition pair_at :: "real \<Rightarrow> Particle list" where
  "pair_at r =
     [\<lparr>p_r = \<lparr>vec_x = r, vec_y = 0, vec_z = 0\<rparr>, p_v = VEC_ZERO, p_a = VEC_ZERO, p_next = - 1\<rparr>,
      \<lparr>p_r = VEC_ZERO, p_v = VEC_ZERO, p_a = VEC_ZERO, p_next = - 1\<rparr>]"

definition kernel_energy :: "real \<Rightarrow> real \<Rightarrow> real" where
  "kernel_energy rc r =
     (case dvs_calc_force 0 1 rc 0 (pair_at r, \<lparr>ww_counter = 0, real_ww_counter = 0, E_pot = 0\<rparr>) of
        None \<Rightarrow> 0 | Some (ps, stats) \<Rightarrow> E_pot stats)"

definition kernel_force :: "real \<Rightarrow> real \<Rightarrow> real" where
  "kernel_force rc r =
     (case dvs_calc_force 0 1 rc 0 (pair_at r, \<lparr>ww_counter = 0, real_ww_counter = 0, E_pot = 0\<rparr>) of
        None \<Rightarrow> 0 | Some (ps, stats) \<Rightarrow> vec_x (p_a (ps ! 0)))"

text \<open>
  The linked list that starts at \<open>h\<close> in the array \<open>nx\<close> of the \<^verbatim>\<open>next\<close> fields visits the
  indices \<open>xs\<close> and ends with \<open>-1\<close>.
\<close>

fun chain :: "int list \<Rightarrow> int \<Rightarrow> int list \<Rightarrow> bool" where
  "chain nx h [] \<longleftrightarrow> h = - 1"
| "chain nx h (x # xs) \<longleftrightarrow>
     h = x \<and> 0 \<le> x \<and> x < int (length nx) \<and> chain nx (nx ! nat x) xs"

text \<open>A grid as \<^verbatim>\<open>Cells_new\<close> allocates it, for a binning \<open>L \<ge> 1\<close>.\<close>

definition Cells_ok :: "Cells \<Rightarrow> bool" where
  "Cells_ok cs \<longleftrightarrow>
     1 \<le> binning cs \<and> dr cs = 2 / real_of_int (binning cs) \<and>
     num_cells cs = binning cs * binning cs * binning cs \<and>
     int (length (cells cs)) = num_cells cs"

text \<open>The particles among the first \<open>N\<close> that fall into cell \<open>c\<close>, the last one first.\<close>

definition bucket :: "int \<Rightarrow> Particle list \<Rightarrow> Cells \<Rightarrow> int \<Rightarrow> int list" where
  "bucket N ps cs c = rev (filter (\<lambda>i. cell_number cs (ps ! nat i) = c) [0..N - 1])"

text \<open>
  A full walk of the lists of all cells, with the list loop of the force sweep: the state
  is the particle array and the list of the indices visited so far.
\<close>

definition visit :: "int \<Rightarrow> Particle list \<times> int list \<Rightarrow> (Particle list \<times> int list) option" where
  "visit i s = Some (fst s, snd s @ [i])"

definition walk_all :: "Particle list \<Rightarrow> Cells \<Rightarrow> int list option" where
  "walk_all ps cs =
     map_option snd
       (for_loop 0 (num_cells cs)
          (\<lambda>c s. case rd (cells cs) c of None \<Rightarrow> None
                 | Some head \<Rightarrow> for_linked fst visit head s)
          (ps, []))"

text \<open>The state after \<open>n\<close> rounds of the loop of \<open>dvs_populate_cells\<close>.\<close>

definition populated :: "nat \<Rightarrow> Particle list \<Rightarrow> Cells \<Rightarrow> Particle list \<times> Cells \<Rightarrow> bool" where
  "populated n ps cs s \<longleftrightarrow>
     (case s of (ps', cs') \<Rightarrow>
        length ps' = length ps \<and>
        (\<forall>k < length ps. p_r (ps' ! k) = p_r (ps ! k) \<and> p_v (ps' ! k) = p_v (ps ! k) \<and>
           p_a (ps' ! k) = p_a (ps ! k)) \<and>
        (\<exists>c'. cs' = cs\<lparr>cells := c'\<rparr> \<and> length c' = length (cells cs) \<and>
           (\<forall>c. 0 \<le> c \<and> c < num_cells cs \<longrightarrow>
              chain (map p_next ps') (c' ! nat c) (bucket (int n) ps cs c))))"

text \<open>
  The partitioned sweep of the spec: for the consecutive cell ranges \<open>[c\<^sub>k, c\<^sub>k\<^sub>+\<^sub>1)\<close> given by
  the cut points, one \<open>dvs_calc_forces\<close> per range on a copy \<open>ps\<close> of the particle array,
  each result added to \<open>accu\<close> by \<open>dvs_collect_forces\<close>.
\<close>

fun sum_partitions ::
  "int \<Rightarrow> Cells \<Rightarrow> real \<Rightarrow> real \<Rightarrow> Particle list \<Rightarrow> Stats \<Rightarrow> int list \<Rightarrow> Particle list \<Rightarrow>
   Particle list option" where
  "sum_partitions N cs rc g ps st (c0 # c1 # cuts) accu =
     (case dvs_calc_forces cs c0 c1 rc g (ps, st) of None \<Rightarrow> None
      | Some (part, st') \<Rightarrow>
        (case dvs_collect_forces N accu part of None \<Rightarrow> None
         | Some (accu', part') \<Rightarrow> sum_partitions N cs rc g ps st (c1 # cuts) accu'))"
| "sum_partitions N cs rc g ps st cuts accu = Some accu"

text \<open>The three bin indices of a particle.\<close>

definition bins :: "Cells \<Rightarrow> Particle \<Rightarrow> int \<times> int \<times> int" where
  "bins cs p = (bin_index cs (vec_x (p_r p)), bin_index cs (vec_y (p_r p)),
                bin_index cs (vec_z (p_r p)))"

text \<open>Two particles lie in the same cell or in neighbouring cells.\<close>

definition adjacent :: "Cells \<Rightarrow> Particle \<Rightarrow> Particle \<Rightarrow> bool" where
  "adjacent cs p q \<longleftrightarrow>
     \<bar>bin_index cs (vec_x (p_r p)) - bin_index cs (vec_x (p_r q))\<bar> \<le> 1 \<and>
     \<bar>bin_index cs (vec_y (p_r p)) - bin_index cs (vec_y (p_r q))\<bar> \<le> 1 \<and>
     \<bar>bin_index cs (vec_z (p_r p)) - bin_index cs (vec_z (p_r q))\<bar> \<le> 1"

text \<open>A pair of indices with the smaller index first.\<close>

definition norm_pair :: "int \<times> int \<Rightarrow> int \<times> int" where
  "norm_pair pr = (min (fst pr) (snd pr), max (fst pr) (snd pr))"

section \<open>The effect of a sequence of kernel calls\<close>

text \<open>
  The kernel reads positions and velocities and adds to accelerations and statistics, so
  the effect of a sequence of calls has a closed form: the sum of the forces of the pairs
  within the cutoff. \<open>within_cutoff\<close>, \<open>pair_force\<close> and \<open>pair_energy\<close> are the test, the local
  \<^verbatim>\<open>force\<close> and the summand of \<^verbatim>\<open>E_pot\<close> of \<^verbatim>\<open>dvs_calc_force\<close>.
\<close>

definition within_cutoff :: "real \<Rightarrow> Particle \<Rightarrow> Particle \<Rightarrow> bool" where
  "within_cutoff cutoff p q \<longleftrightarrow> vec_magnitude2 (vec_sub (p_r p) (p_r q)) < cutoff * cutoff"

definition pair_force :: "real \<Rightarrow> real \<Rightarrow> Particle \<Rightarrow> Particle \<Rightarrow> vec" where
  "pair_force cutoff gamma p q =
     (let dr = vec_sub (p_r p) (p_r q);
          r2 = vec_magnitude2 dr;
          cutoff2 = cutoff * cutoff;
          r = sqrt r2;
          force_mag = 1 / r2 - 1 / cutoff2
      in vec_inc (vec_sclr (force_mag / r) dr) (vec_sclr (- gamma) (vec_sub (p_v p) (p_v q))))"

definition pair_energy :: "real \<Rightarrow> Particle \<Rightarrow> Particle \<Rightarrow> real" where
  "pair_energy cutoff p q =
     (let r = sqrt (vec_magnitude2 (vec_sub (p_r p) (p_r q)))
      in 1 / r + r / (cutoff * cutoff) - 2 / cutoff)"

text \<open>The sum of a list of vectors, and the force that the call on the pair \<open>pr\<close> adds to particle \<open>k\<close>.\<close>

definition vsum :: "vec list \<Rightarrow> vec" where
  "vsum vs = \<lparr>vec_x = sum_list (map vec_x vs), vec_y = sum_list (map vec_y vs),
              vec_z = sum_list (map vec_z vs)\<rparr>"

definition contrib :: "real \<Rightarrow> real \<Rightarrow> Particle list \<Rightarrow> int \<Rightarrow> int \<times> int \<Rightarrow> vec" where
  "contrib cutoff gamma ps k pr =
     (let p = ps ! nat (fst pr); q = ps ! nat (snd pr)
      in if within_cutoff cutoff p q then
           if k = fst pr then pair_force cutoff gamma p q
           else if k = snd pr then vec_sclr (- 1) (pair_force cutoff gamma p q)
           else VEC_ZERO
         else VEC_ZERO)"

definition interacting :: "real \<Rightarrow> Particle list \<Rightarrow> int \<times> int \<Rightarrow> bool" where
  "interacting cutoff ps pr \<longleftrightarrow> within_cutoff cutoff (ps ! nat (fst pr)) (ps ! nat (snd pr))"

text \<open>
  The accelerations and the statistics after the calls on the pairs \<open>prs\<close>; \<open>ps0\<close> holds the
  positions and velocities.
\<close>

definition add_forces ::
  "real \<Rightarrow> real \<Rightarrow> Particle list \<Rightarrow> (int \<times> int) list \<Rightarrow> Particle list \<Rightarrow> Particle list" where
  "add_forces cutoff gamma ps0 prs ps =
     map (\<lambda>k. (ps ! k)\<lparr>p_a := vec_inc (p_a (ps ! k))
                                 (vsum (map (contrib cutoff gamma ps0 (int k)) prs))\<rparr>)
       [0..<length ps]"

definition add_stats :: "real \<Rightarrow> Particle list \<Rightarrow> (int \<times> int) list \<Rightarrow> Stats \<Rightarrow> Stats" where
  "add_stats cutoff ps0 prs st =
     st\<lparr>ww_counter := ww_counter st + int (length prs),
        real_ww_counter := real_ww_counter st + int (length (filter (interacting cutoff ps0) prs)),
        E_pot := E_pot st +
          sum_list (map (\<lambda>pr. pair_energy cutoff (ps0 ! nat (fst pr)) (ps0 ! nat (snd pr)))
            (filter (interacting cutoff ps0) prs))\<rparr>"

definition valid_pair :: "Particle list \<Rightarrow> int \<times> int \<Rightarrow> bool" where
  "valid_pair ps pr \<longleftrightarrow>
     0 \<le> fst pr \<and> fst pr < int (length ps) \<and> 0 \<le> snd pr \<and> snd pr < int (length ps) \<and>
     fst pr \<noteq> snd pr"

definition same_rv :: "Particle list \<Rightarrow> Particle list \<Rightarrow> bool" where
  "same_rv ps0 ps \<longleftrightarrow> length ps = length ps0 \<and>
     (\<forall>k < length ps0. p_r (ps ! k) = p_r (ps0 ! k) \<and> p_v (ps ! k) = p_v (ps0 ! k))"

text \<open>The pairs of indices on which \<^verbatim>\<open>dvs_calc_brute_forces\<close> calls the kernel, in the order of the calls.\<close>

definition brute_pairs :: "int \<Rightarrow> int \<Rightarrow> int \<Rightarrow> (int \<times> int) list" where
  "brute_pairs N first_particle last_particle = concat (map (\<lambda>i. map (Pair i) [i + 1..N - 1]) [first_particle..last_particle - 1])"

text \<open>
  The pairs of indices on which \<^verbatim>\<open>dvs_calc_forces\<close> calls the kernel, in the order of the
  calls, when \<open>b c\<close> is the list of cell \<open>c\<close>: for the loop over one list, for one neighbour
  cell, for one main cell, and for the whole sweep.
\<close>

fun own_pairs :: "int list \<Rightarrow> (int \<times> int) list" where
  "own_pairs [] = []"
| "own_pairs (i # xs) = map (Pair i) xs @ own_pairs xs"

definition neighbour_pairs ::
  "int \<Rightarrow> (int \<Rightarrow> int list) \<Rightarrow> int \<Rightarrow> int \<Rightarrow> int \<Rightarrow> int \<Rightarrow> (int \<times> int) list" where
  "neighbour_pairs L b this_cell nnx nny nnz =
     (let other_cell = nnx + nny * L + nnz * (L * L)
      in if this_cell > other_cell then []
         else if this_cell = other_cell then own_pairs (b this_cell)
         else List.product (b this_cell) (b other_cell))"

definition main_cell_pairs ::
  "int \<Rightarrow> (int \<Rightarrow> int list) \<Rightarrow> int \<Rightarrow> int \<Rightarrow> int \<Rightarrow> int \<Rightarrow> int \<Rightarrow> (int \<times> int) list" where
  "main_cell_pairs L b cell0 cell1 x y z =
     (let this_cell = x + L * y + L * L * z
      in if b this_cell = [] \<or> this_cell < cell0 \<or> this_cell \<ge> cell1 then []
         else
           concat (map (\<lambda>nnz.
           concat (map (\<lambda>nny.
           concat (map (\<lambda>nnx. neighbour_pairs L b this_cell nnx nny nnz)
             [max 0 (x - 1)..min L (x + 2) - 1]))
             [max 0 (y - 1)..min L (y + 2) - 1]))
             [max 0 (z - 1)..min L (z + 2) - 1]))"

definition cell_pairs ::
  "int \<Rightarrow> (int \<Rightarrow> int list) \<Rightarrow> int \<Rightarrow> int \<Rightarrow> (int \<times> int) list" where
  "cell_pairs L b cell0 cell1 =
     concat (map (\<lambda>z. concat (map (\<lambda>y. concat (map (\<lambda>x.
       main_cell_pairs L b cell0 cell1 x y z) [0..L - 1])) [0..L - 1])) [0..L - 1])"

text \<open>
  On every state whose \<^verbatim>\<open>next\<close> fields are \<open>nx\<close>, the state transformer \<open>f\<close> is the sequence
  of kernel calls on the pairs \<open>prs\<close>.
\<close>

definition realises ::
  "int list \<Rightarrow> real \<Rightarrow> real \<Rightarrow> (state \<Rightarrow> state option) \<Rightarrow> (int \<times> int) list \<Rightarrow> bool" where
  "realises nx c g f prs \<longleftrightarrow>
     (\<forall>s. map p_next (fst s) = nx \<longrightarrow>
        f s = ofold (\<lambda>pr. dvs_calc_force (fst pr) (snd pr) c g) prs s)"

text \<open>Every head of the grid starts the list \<open>b c\<close> of its cell.\<close>

definition linked :: "Cells \<Rightarrow> int list \<Rightarrow> (int \<Rightarrow> int list) \<Rightarrow> bool" where
  "linked cs nx b \<longleftrightarrow>
     (\<forall>c. 0 \<le> c \<and> c < int (length (cells cs)) \<longrightarrow> chain nx (cells cs ! nat c) (b c))"

section \<open>The special values of IEEE arithmetic\<close>

text \<open>
  A \<^verbatim>\<open>double\<close> with the special values that \<^typ>\<open>real\<close> does not have. Finite values
  are still computed exactly (no rounding, no overflow), and the sign of a zero is not
  modelled; it would only decide the sign of \<open>x / 0\<close> for \<open>x \<noteq> 0\<close>.
\<close>

datatype double = Fin real | PInf | NInf | NaN

fun dneg :: "double \<Rightarrow> double" where
  "dneg (Fin a) = Fin (- a)"
| "dneg PInf = NInf"
| "dneg NInf = PInf"
| "dneg NaN = NaN"

fun dadd :: "double \<Rightarrow> double \<Rightarrow> double" where
  "dadd NaN _ = NaN"
| "dadd _ NaN = NaN"
| "dadd (Fin a) (Fin b) = Fin (a + b)"
| "dadd PInf NInf = NaN"
| "dadd NInf PInf = NaN"
| "dadd PInf _ = PInf"
| "dadd _ PInf = PInf"
| "dadd NInf _ = NInf"
| "dadd _ NInf = NInf"

definition dsub :: "double \<Rightarrow> double \<Rightarrow> double" where
  "dsub a b = dadd a (dneg b)"

fun dmul :: "double \<Rightarrow> double \<Rightarrow> double" where
  "dmul NaN _ = NaN"
| "dmul _ NaN = NaN"
| "dmul (Fin a) (Fin b) = Fin (a * b)"
| "dmul (Fin a) PInf = (if a = 0 then NaN else if 0 < a then PInf else NInf)"
| "dmul (Fin a) NInf = (if a = 0 then NaN else if 0 < a then NInf else PInf)"
| "dmul PInf (Fin b) = (if b = 0 then NaN else if 0 < b then PInf else NInf)"
| "dmul NInf (Fin b) = (if b = 0 then NaN else if 0 < b then NInf else PInf)"
| "dmul PInf PInf = PInf"
| "dmul PInf NInf = NInf"
| "dmul NInf PInf = NInf"
| "dmul NInf NInf = PInf"

fun ddiv :: "double \<Rightarrow> double \<Rightarrow> double" where
  "ddiv NaN _ = NaN"
| "ddiv _ NaN = NaN"
| "ddiv (Fin a) (Fin b) =
     (if b \<noteq> 0 then Fin (a / b) else if a = 0 then NaN else if 0 < a then PInf else NInf)"
| "ddiv (Fin a) _ = Fin 0"
| "ddiv PInf (Fin b) = (if 0 \<le> b then PInf else NInf)"
| "ddiv NInf (Fin b) = (if 0 \<le> b then NInf else PInf)"
| "ddiv _ _ = NaN"

fun dsqrt :: "double \<Rightarrow> double" where
  "dsqrt (Fin a) = (if 0 \<le> a then Fin (sqrt a) else NaN)"
| "dsqrt PInf = PInf"
| "dsqrt _ = NaN"

record dvec =
  dvec_x :: double
  dvec_y :: double
  dvec_z :: double

record DParticle =
  d_r :: dvec
  d_v :: dvec
  d_a :: dvec
  d_next :: int

definition DVEC_ZERO :: dvec where
  "DVEC_ZERO = \<lparr>dvec_x = Fin 0, dvec_y = Fin 0, dvec_z = Fin 0\<rparr>"

definition dvec_inc :: "dvec \<Rightarrow> dvec \<Rightarrow> dvec" where
  "dvec_inc a b = \<lparr>dvec_x = dadd (dvec_x a) (dvec_x b), dvec_y = dadd (dvec_y a) (dvec_y b),
                    dvec_z = dadd (dvec_z a) (dvec_z b)\<rparr>"

definition dvec_sclr :: "double \<Rightarrow> dvec \<Rightarrow> dvec" where
  "dvec_sclr s a = \<lparr>dvec_x = dmul s (dvec_x a), dvec_y = dmul s (dvec_y a),
                     dvec_z = dmul s (dvec_z a)\<rparr>"

definition dvec_dot :: "dvec \<Rightarrow> dvec \<Rightarrow> double" where
  "dvec_dot a b =
     dadd (dadd (dmul (dvec_x a) (dvec_x b)) (dmul (dvec_y a) (dvec_y b)))
       (dmul (dvec_z a) (dvec_z b))"

text \<open>
  The body of the loop of \<^verbatim>\<open>dvs_advance\<close> once more, over these values: the state of
  \<^verbatim>\<open>*p\<close> after the position update, the local \<^verbatim>\<open>lambda\<close>, and the whole body.
\<close>

definition predict_ieee :: "double \<Rightarrow> double \<Rightarrow> DParticle \<Rightarrow> DParticle" where
  "predict_ieee dt dt_hlf p =
     (let p = p\<lparr>d_v := dvec_inc (d_v p) (dvec_sclr dt_hlf (d_a p))\<rparr>;
          p = p\<lparr>d_r := dvec_inc (d_r p) (dvec_sclr dt (d_v p))\<rparr>;
          p = p\<lparr>d_a := DVEC_ZERO\<rparr>
      in p)"

definition lambda_ieee :: "dvec \<Rightarrow> DParticle \<Rightarrow> double" where
  "lambda_ieee old_r p =
     (let r0_dot_r = dvec_dot old_r (d_r p);
          r0_sqr = dvec_dot (d_r p) (d_r p)
      in dadd (dneg r0_dot_r) (dsqrt (dadd (dsub (Fin 1) r0_sqr) (dmul r0_dot_r r0_dot_r))))"

definition advance_body_ieee :: "double \<Rightarrow> double \<Rightarrow> DParticle \<Rightarrow> DParticle" where
  "advance_body_ieee dt dt_hlf p =
     (let old_r = d_r p;
          p = predict_ieee dt dt_hlf p;
          lambda = lambda_ieee old_r p;
          p = p\<lparr>d_r := dvec_inc (d_r p) (dvec_sclr lambda old_r)\<rparr>;
          p = p\<lparr>d_v := dvec_inc (d_v p) (dvec_sclr (ddiv lambda dt) old_r)\<rparr>
      in p)"

definition dvs_advance_ieee :: "int \<Rightarrow> DParticle list \<Rightarrow> double \<Rightarrow> DParticle list option" where
  "dvs_advance_ieee nparticles ps dt =
     (let dt_hlf = dmul (Fin 0.5) dt
      in for_loop 0 nparticles (\<lambda>i ps. modify ps i (advance_body_ieee dt dt_hlf)) ps)"

text \<open>A particle with finite coordinates on the unit sphere, at rest, with no acceleration.\<close>

definition at_rest_on_sphere :: "DParticle \<Rightarrow> bool" where
  "at_rest_on_sphere p \<longleftrightarrow>
     (case (dvec_x (d_r p), dvec_y (d_r p), dvec_z (d_r p)) of
        (Fin x, Fin y, Fin z) \<Rightarrow> x * x + y * y + z * z = 1
      | _ \<Rightarrow> False) \<and>
     d_v p = DVEC_ZERO \<and> d_a p = DVEC_ZERO"

definition D0 :: DParticle where
  "D0 = \<lparr>d_r = \<lparr>dvec_x = Fin 1, dvec_y = Fin 0, dvec_z = Fin 0\<rparr>, d_v = DVEC_ZERO,
          d_a = DVEC_ZERO, d_next = - 1\<rparr>"

section \<open>Sample inputs\<close>

definition P0 :: Particle where
  "P0 = \<lparr>p_r = \<lparr>vec_x = 1, vec_y = 0, vec_z = 0\<rparr>, p_v = \<lparr>vec_x = 1, vec_y = 2, vec_z = 0\<rparr>,
          p_a = \<lparr>vec_x = 0, vec_y = 4, vec_z = 2\<rparr>, p_next = 7\<rparr>"

definition P1 :: Particle where
  "P1 = \<lparr>p_r = \<lparr>vec_x = 1, vec_y = 0, vec_z = 0\<rparr>, p_v = \<lparr>vec_x = 0, vec_y = 0, vec_z = 0\<rparr>,
          p_a = \<lparr>vec_x = 0, vec_y = 2, vec_z = 0\<rparr>, p_next = 7\<rparr>"

definition Pa :: Particle where
  "Pa = \<lparr>p_r = \<lparr>vec_x = 1, vec_y = 0, vec_z = 0\<rparr>, p_v = \<lparr>vec_x = 0, vec_y = 1, vec_z = 0\<rparr>,
          p_a = \<lparr>vec_x = 0, vec_y = 0, vec_z = 0\<rparr>, p_next = - 1\<rparr>"

definition Pb :: Particle where
  "Pb = \<lparr>p_r = \<lparr>vec_x = 0, vec_y = 0, vec_z = 0\<rparr>, p_v = \<lparr>vec_x = 0, vec_y = 0, vec_z = 0\<rparr>,
          p_a = \<lparr>vec_x = 0, vec_y = 0, vec_z = 0\<rparr>, p_next = - 1\<rparr>"

definition St0 :: Stats where
  "St0 = \<lparr>ww_counter = 0, real_ww_counter = 0, E_pot = 0\<rparr>"

section \<open>Properties of the loops\<close>

lemma for_loop_ofold: "for_loop i n body s = ofold body [i..n - 1] s"
proof (induction i n body s rule: for_loop.induct)
  case (1 i n body s)
  show ?case
  proof (cases "i < n")
    case True
    then have "[i..n - 1] = i # [i + 1..n - 1]"
      by (simp add: upto_rec1)
    with True 1 show ?thesis
      by (subst for_loop.simps) (simp split: option.splits)
  next
    case False
    then show ?thesis
      by (subst for_loop.simps) simp
  qed
qed

lemma ofold_append: "ofold f (xs @ ys) s = Option.bind (ofold f xs s) (ofold f ys)"
  by (induction xs arbitrary: s) (auto split: option.splits)

lemma upto_nat_Suc: "[0..int (Suc n) - 1] = [0..int n - 1] @ [int n]"
  by (simp add: upto_rec2)

text \<open>A loop that updates the elements \<open>0, \<dots>, n - 1\<close> of an array in place.\<close>

lemma for_loop_modify_nat:
  "n \<le> length ps \<Longrightarrow>
   for_loop 0 (int n) (\<lambda>i ps. modify ps i f) ps = Some (map f (take n ps) @ drop n ps)"
proof (induction n)
  case 0
  then show ?case by (simp add: for_loop_ofold)
next
  case (Suc n)
  then have IH: "ofold (\<lambda>i ps. modify ps i f) [0..int n - 1] ps = Some (map f (take n ps) @ drop n ps)"
    and n: "n < length ps"
    by (simp_all add: for_loop_ofold)
  have "(map f (take n ps) @ drop n ps)[n := f ((map f (take n ps) @ drop n ps) ! n)]
        = map f (take (Suc n) ps) @ drop (Suc n) ps"
    using n by (intro nth_equalityI) (auto simp: nth_append nth_list_update less_Suc_eq)
  with IH n show ?case
    unfolding for_loop_ofold upto_nat_Suc ofold_append
    by (simp add: modify_def)
qed

lemma for_loop_modify:
  assumes "N \<le> int (length ps)"
  shows "for_loop 0 N (\<lambda>i ps. modify ps i f) ps = Some (map f (take (nat N) ps) @ drop (nat N) ps)"
proof (cases "0 \<le> N")
  case True
  with assms for_loop_modify_nat [of "nat N" ps f] show ?thesis by simp
next
  case False
  then show ?thesis by (simp add: for_loop_ofold)
qed

lemma collect_forces_nat:
  "n \<le> length accu \<Longrightarrow> n \<le> length part \<Longrightarrow>
   dvs_collect_forces (int n) accu part =
     Some (map2 (\<lambda>p q. p\<lparr>p_a := vec_inc (p_a p) (p_a q)\<rparr>) (take n accu) (take n part)
           @ drop n accu, part)"
proof (induction n)
  case 0
  then show ?case by (simp add: for_loop_ofold dvs_collect_forces_def)
next
  case (Suc n)
  let ?g = "\<lambda>p q. p\<lparr>p_a := vec_inc (p_a p) (p_a q)\<rparr>"
  let ?r = "\<lambda>n. map2 ?g (take n accu) (take n part) @ drop n accu"
  from Suc have IH: "dvs_collect_forces (int n) accu part = Some (?r n, part)"
    and n: "n < length accu" "n < length part"
    by simp_all
  have "(?r n)[n := ?g (?r n ! n) (part ! n)] = ?r (Suc n)"
    using n by (intro nth_equalityI) (auto simp: nth_append nth_list_update less_Suc_eq)
  with IH n show ?case
    unfolding dvs_collect_forces_def for_loop_ofold upto_nat_Suc ofold_append
    by (simp add: modify_def rd_def)
qed

lemma collect_forces_eq:
  assumes "N \<le> int (length accu)" "N \<le> int (length part)"
  shows "dvs_collect_forces N accu part =
     Some (map2 (\<lambda>p q. p\<lparr>p_a := vec_inc (p_a p) (p_a q)\<rparr>) (take (nat N) accu) (take (nat N) part)
           @ drop (nat N) accu, part)"
proof (cases "0 \<le> N")
  case True
  with assms collect_forces_nat [of "nat N" accu part] show ?thesis by simp
next
  case False
  then show ?thesis by (simp add: for_loop_ofold dvs_collect_forces_def)
qed

section \<open>The integrator keeps the constraints\<close>

lemma vec_dot_inc_right: "vec_dot a (vec_inc b c) = vec_dot a b + vec_dot a c"
  by (simp add: vec_defs algebra_simps)
lemma vec_dot_inc_left: "vec_dot (vec_inc b c) a = vec_dot b a + vec_dot c a"
  by (simp add: vec_defs algebra_simps)
lemma vec_dot_sclr_right: "vec_dot a (vec_sclr s b) = s * vec_dot a b"
  by (simp add: vec_defs algebra_simps)
lemma vec_dot_sclr_left: "vec_dot (vec_sclr s b) a = s * vec_dot b a"
  by (simp add: vec_defs algebra_simps)
lemma vec_dot_commute: "vec_dot a b = vec_dot b a"
  by (simp add: vec_defs algebra_simps)

lemma vec_norm_1_iff: "vec_norm a = 1 \<longleftrightarrow> vec_dot a a = 1"
  by (simp add: vec_norm_def vec_magnitude2_def)

lemma correct_body_tangent:
  assumes "vec_norm (p_r p) = 1"
  shows "vec_dot (p_r (correct_body h p)) (p_v (correct_body h p)) = 0"
  using assms
  by (simp add: correct_body_def Let_def vec_norm_1_iff vec_dot_inc_right vec_dot_sclr_right
      vec_dot_commute)

lemma correct_body_frame:
  "p_r (correct_body h p) = p_r p" "p_a (correct_body h p) = p_a p" "p_next (correct_body h p) = p_next p"
  by (simp_all add: correct_body_def Let_def)

lemma advance_body_r:
  "p_r (advance_body dt (0.5 * dt) p) = vec_inc (r_predicted dt p) (vec_sclr (lambda_r dt p) (p_r p))"
  by (simp add: advance_body_def Let_def r_predicted_def lambda_r_def discriminant_def
      vec_magnitude2_def power2_eq_square)

lemma on_sphere_after:
  assumes "vec_norm r0 = 1" and D: "0 \<le> 1 - vec_magnitude2 rp + (vec_dot r0 rp)\<^sup>2"
  shows "vec_norm (vec_inc rp (vec_sclr (- vec_dot r0 rp + sqrt (1 - vec_magnitude2 rp + (vec_dot r0 rp)\<^sup>2)) r0)) = 1"
proof -
  define b where "b = vec_dot r0 rp"
  define q where "q = vec_dot rp rp"
  define s where "s = sqrt (1 - q + b\<^sup>2)"
  have ss: "s * s = 1 - q + b\<^sup>2"
    using D by (simp add: s_def q_def b_def vec_magnitude2_def)
  have r0: "vec_dot r0 r0 = 1" using assms(1) by (simp add: vec_norm_1_iff)
  have "vec_dot (vec_inc rp (vec_sclr (- b + s) r0)) (vec_inc rp (vec_sclr (- b + s) r0))
        = q + 2 * (- b + s) * b + (- b + s) * (- b + s)"
    by (simp add: vec_dot_inc_right vec_dot_inc_left vec_dot_sclr_left vec_dot_sclr_right r0
        b_def q_def vec_dot_commute [of rp r0] algebra_simps)
  also have "\<dots> = q - b\<^sup>2 + s * s"
    by (simp add: algebra_simps power2_eq_square)
  also have "\<dots> = 1" by (simp add: ss)
  finally show ?thesis
    by (simp add: vec_norm_1_iff b_def q_def s_def vec_magnitude2_def)
qed



lemma prefix_map_nth:
  assumes "N \<le> int (length ps)"
  shows "length (map f (take (nat N) ps) @ drop (nat N) ps) = length ps"
    and "i < nat N \<Longrightarrow> (map f (take (nat N) ps) @ drop (nat N) ps) ! i = f (ps ! i)"
    and "nat N \<le> i \<Longrightarrow> i < length ps \<Longrightarrow> (map f (take (nat N) ps) @ drop (nat N) ps) ! i = ps ! i"
  using assms by (auto simp: nth_append)

text \<open>
  Claim C9. Given arrays \<open>accu\<close> and \<open>part\<close> with at least \<open>N\<close> elements,
  \<open>dvs_collect_forces N accu part\<close> returns, leaves \<open>part\<close> as it was, adds \<open>part[i].a\<close> to
  \<open>accu[i].a\<close> component by component for every \<open>i < N\<close>, and changes no position, no
  velocity, no \<open>next\<close> field and no acceleration at an index from \<open>N\<close> on.
\<close>

theorem collect_forces_adds:
  assumes "N \<le> int (length accu)" and "N \<le> int (length part)"
  shows "\<exists>accu'. dvs_collect_forces N accu part = Some (accu', part) \<and>
           length accu' = length accu \<and>
           (\<forall>i < length accu.
              (if int i < N
               then vec_x (p_a (accu' ! i)) = vec_x (p_a (accu ! i)) + vec_x (p_a (part ! i)) \<and>
                    vec_y (p_a (accu' ! i)) = vec_y (p_a (accu ! i)) + vec_y (p_a (part ! i)) \<and>
                    vec_z (p_a (accu' ! i)) = vec_z (p_a (accu ! i)) + vec_z (p_a (part ! i))
               else p_a (accu' ! i) = p_a (accu ! i)) \<and>
              p_r (accu' ! i) = p_r (accu ! i) \<and>
              p_v (accu' ! i) = p_v (accu ! i) \<and>
              p_next (accu' ! i) = p_next (accu ! i))"
proof -
  let ?g = "\<lambda>p q. p\<lparr>p_a := vec_inc (p_a p) (p_a q)\<rparr>"
  define r where "r = map2 ?g (take (nat N) accu) (take (nat N) part) @ drop (nat N) accu"
  have len: "length r = length accu"
    using assms by (simp add: r_def)
  have nth: "r ! i = (if int i < N then ?g (accu ! i) (part ! i) else accu ! i)"
    if "i < length accu" for i
    using that assms by (auto simp: nth_append r_def)
  have "dvs_collect_forces N accu part = Some (r, part)"
    using collect_forces_eq [OF assms] by (simp add: r_def)
  then show ?thesis
    using len by (simp add: nth vec_inc_def)
qed

theorem collect_forces_adds_witness:
  "(1::int) \<le> int (length [P0, P0]) \<and> (1::int) \<le> int (length [P0]) \<and>
   (\<exists>accu'. dvs_collect_forces 1 [P0, P0] [P0] = Some (accu', [P0]) \<and>
      vec_y (p_a (accu' ! 0)) = 8 \<and> vec_y (p_a (accu' ! 1)) = 4 \<and> p_next (accu' ! 0) = 7)"
  using collect_forces_adds [of 1 "[P0, P0]" "[P0]"]
  by (auto simp: P0_def)

text \<open>
  Claim C2. If the first \<open>N\<close> particles are on the unit sphere, \<open>dvs_correct N ps dt\<close>
  returns an array in which each of them has a velocity tangent to the sphere,
  \<open>r \<cdot> v = 0\<close> in real arithmetic, the position unchanged, and the velocity
  \<open>v + (dt/2) a + \<lambda> r\<close> with \<open>\<lambda> = - ((v + (dt/2) a) \<cdot> r)\<close>.
\<close>

theorem correct_tangent:
  assumes "N \<le> int (length ps)"
    and "\<forall>i < nat N. vec_norm (p_r (ps ! i)) = 1"
  shows "\<exists>ps'. dvs_correct N ps dt = Some ps' \<and> length ps' = length ps \<and>
           (\<forall>i < nat N.
              vec_dot (p_r (ps' ! i)) (p_v (ps' ! i)) = 0 \<and>
              p_r (ps' ! i) = p_r (ps ! i) \<and>
              p_v (ps' ! i) =
                (let v = vec_inc (p_v (ps ! i)) (vec_sclr (dt / 2) (p_a (ps ! i)));
                     lambda = - vec_dot v (p_r (ps ! i))
                 in vec_inc v (vec_sclr lambda (p_r (ps ! i)))))"
proof -
  define f where "f = correct_body (0.5 * dt)"
  define r where "r = map f (take (nat N) ps) @ drop (nat N) ps"
  have eq: "dvs_correct N ps dt = Some r"
    using for_loop_modify [OF assms(1)] by (simp add: dvs_correct_def r_def f_def)
  have len: "length r = length ps" and nth: "\<And>i. i < nat N \<Longrightarrow> r ! i = f (ps ! i)"
    unfolding r_def using prefix_map_nth [OF assms(1)] by blast+
  have "p_v (f p) =
        (let v = vec_inc (p_v p) (vec_sclr (dt / 2) (p_a p)); lambda = - vec_dot v (p_r p)
         in vec_inc v (vec_sclr lambda (p_r p)))" for p
    by (simp add: correct_body_def Let_def f_def)
  moreover have "p_r (f p) = p_r p" for p
    by (simp add: f_def correct_body_frame)
  moreover have "vec_dot (p_r (f (ps ! i))) (p_v (f (ps ! i))) = 0" if "i < nat N" for i
    using that assms(2) unfolding f_def by (intro correct_body_tangent) simp
  ultimately show ?thesis
    unfolding eq using len by (simp add: nth)
qed

theorem correct_tangent_witness:
  "(1::int) \<le> int (length [P0]) \<and> vec_norm (p_r P0) = 1 \<and>
   (\<exists>ps'. dvs_correct 1 [P0] 2 = Some ps' \<and> vec_dot (p_r (ps' ! 0)) (p_v (ps' ! 0)) = 0 \<and>
      p_v (ps' ! 0) = \<lparr>vec_x = 0, vec_y = 6, vec_z = 2\<rparr>)"
  using correct_tangent [of 1 "[P0]" 2]
  by (auto simp: P0_def vec_norm_def vec_defs Let_def)

text \<open>
  Claim C1. If the first \<open>N\<close> particles are on the unit sphere and the discriminant
  \<open>1 - |r_predicted|\<^sup>2 + (r_old \<cdot> r_predicted)\<^sup>2\<close> of each of them is not negative,
  \<open>dvs_advance N ps dt\<close> returns an array in which each of them is on the unit sphere
  again (in real arithmetic), at the position \<open>r_predicted + \<lambda> r_old\<close> with
  \<open>\<lambda> = - (r_old \<cdot> r_predicted) + \<surd>discriminant\<close>.
\<close>

theorem advance_on_sphere:
  assumes "N \<le> int (length ps)"
    and "\<forall>i < nat N. vec_norm (p_r (ps ! i)) = 1"
    and "\<forall>i < nat N. 0 \<le> discriminant dt (ps ! i)"
  shows "\<exists>ps'. dvs_advance N ps dt = Some ps' \<and> length ps' = length ps \<and>
           (\<forall>i < nat N.
              vec_norm (p_r (ps' ! i)) = 1 \<and>
              p_r (ps' ! i) =
                vec_inc (r_predicted dt (ps ! i)) (vec_sclr (lambda_r dt (ps ! i)) (p_r (ps ! i))))"
proof -
  define f where "f = advance_body dt (0.5 * dt)"
  define r where "r = map f (take (nat N) ps) @ drop (nat N) ps"
  have eq: "dvs_advance N ps dt = Some r"
    using for_loop_modify [OF assms(1)] by (simp add: dvs_advance_def r_def f_def)
  have len: "length r = length ps" and nth: "\<And>i. i < nat N \<Longrightarrow> r ! i = f (ps ! i)"
    unfolding r_def using prefix_map_nth [OF assms(1)] by blast+
  have fr: "p_r (f p) = vec_inc (r_predicted dt p) (vec_sclr (lambda_r dt p) (p_r p))" for p
    unfolding f_def by (rule advance_body_r)
  have "vec_norm (p_r (f (ps ! i))) = 1" if "i < nat N" for i
    unfolding fr lambda_r_def discriminant_def
    using that assms(2,3) by (intro on_sphere_after) (simp_all add: discriminant_def)
  then show ?thesis
    unfolding eq using len by (simp add: nth fr)
qed


theorem advance_on_sphere_witness:
  "(1::int) \<le> int (length [P1]) \<and> vec_norm (p_r P1) = 1 \<and> 0 \<le> discriminant 1 P1 \<and>
   (\<exists>ps'. dvs_advance 1 [P1] 1 = Some ps' \<and> vec_norm (p_r (ps' ! 0)) = 1 \<and>
      p_r (ps' ! 0) = \<lparr>vec_x = 0, vec_y = 1, vec_z = 0\<rparr>)"
  using advance_on_sphere [of 1 "[P1]" 1]
  by (auto simp: P1_def vec_norm_def vec_defs r_predicted_def discriminant_def lambda_r_def)

section \<open>The force kernel\<close>

lemma vec_magnitude2_nonneg: "0 \<le> vec_magnitude2 a"
  by (simp add: vec_defs)

text \<open>
  Claim C3. For two different particles \<open>p = ps[i]\<close> and \<open>q = ps[j]\<close> of the array, with
  \<open>d = p.r - q.r\<close> and \<open>r = |d|\<close>: if \<open>|d|\<^sup>2 \<ge> rc\<^sup>2\<close> the kernel adds one to \<open>ww_counter\<close> and
  changes nothing else; otherwise it adds one to \<open>ww_counter\<close> and to \<open>real_ww_counter\<close>,
  adds \<open>F + D\<close> to \<open>p.a\<close> and subtracts it from \<open>q.a\<close>, where
  \<open>F = ((1/r\<^sup>2 - 1/rc\<^sup>2) / r) d\<close> and \<open>D = - gamma (p.v - q.v)\<close>, and adds
  \<open>1/r + r/rc\<^sup>2 - 2/rc\<close> to \<open>E_pot\<close>. (\<open>force_magnitude\<close> and \<open>pair_potential\<close> are these
  two expressions.)
\<close>

theorem calc_force_effect:
  assumes "0 \<le> i" "i < int (length ps)" "0 \<le> j" "j < int (length ps)" "i \<noteq> j"
  shows "dvs_calc_force i j rc gamma (ps, stats) =
    (let p = ps ! nat i; q = ps ! nat j;
         d = vec_sub (p_r p) (p_r q);
         r = vec_norm d
     in if vec_magnitude2 d \<ge> rc\<^sup>2
        then Some (ps, stats\<lparr>ww_counter := ww_counter stats + 1\<rparr>)
        else
          let F = vec_sclr (force_magnitude rc r / r) d;
              D = vec_sclr (- gamma) (vec_sub (p_v p) (p_v q));
              FD = vec_inc F D
          in Some (ps[nat i := p\<lparr>p_a := vec_inc (p_a p) FD\<rparr>,
                      nat j := q\<lparr>p_a := vec_dec (p_a q) FD\<rparr>],
                   stats\<lparr>ww_counter := ww_counter stats + 1,
                         real_ww_counter := real_ww_counter stats + 1,
                         E_pot := E_pot stats + pair_potential rc r\<rparr>))"
proof -
  have ne: "nat i \<noteq> nat j" using assms by auto
  have sq: "(sqrt (vec_magnitude2 d))\<^sup>2 = vec_magnitude2 d" for d
    by (simp add: vec_magnitude2_nonneg)
  show ?thesis
    using assms ne
    by (simp add: dvs_calc_force_def rd_def modify_def Let_def vec_norm_def sq
        force_magnitude_def pair_potential_def power2_eq_square [of rc] not_le not_less)
qed

theorem calc_force_effect_witness:
  "(0::int) \<le> 0 \<and> (0::int) < int (length [Pa, Pb]) \<and> (0::int) \<le> 1 \<and> (1::int) < int (length [Pa, Pb]) \<and>
   (0::int) \<noteq> 1 \<and>
   dvs_calc_force 0 1 2 1 ([Pa, Pb], St0) =
     Some ([Pa\<lparr>p_a := \<lparr>vec_x = 3 / 4, vec_y = - 1, vec_z = 0\<rparr>\<rparr>,
            Pb\<lparr>p_a := \<lparr>vec_x = - 3 / 4, vec_y = 1, vec_z = 0\<rparr>\<rparr>],
           \<lparr>ww_counter = 1, real_ww_counter = 1, E_pot = 1 / 4\<rparr>) \<and>
   dvs_calc_force 0 1 1 1 ([Pa, Pb], St0) =
     Some ([Pa, Pb], \<lparr>ww_counter = 1, real_ww_counter = 0, E_pot = 0\<rparr>)"
  using calc_force_effect [of 0 "[Pa, Pb]" 1 2 1 St0] calc_force_effect [of 0 "[Pa, Pb]" 1 1 1 St0]
  by (simp add: Pa_def Pb_def St0_def vec_norm_def vec_defs Let_def force_magnitude_def
      pair_potential_def)

subsection \<open>The kernel as a function of the distance\<close>

lemma kernel_energy_eq:
  "kernel_energy rc r = (if r * r < rc * rc then 1 / \<bar>r\<bar> + \<bar>r\<bar> / (rc * rc) - 2 / rc else 0)"
  by (simp add: kernel_energy_def dvs_calc_force_def pair_at_def rd_def modify_def Let_def vec_defs)

lemma kernel_force_eq:
  "kernel_force rc r = (if r * r < rc * rc then (1 / (r * r) - 1 / (rc * rc)) / \<bar>r\<bar> * r else 0)"
  by (simp add: kernel_force_def dvs_calc_force_def pair_at_def rd_def modify_def Let_def vec_defs)

lemma sq_less_iff:
  fixes r rc :: real
  assumes "0 \<le> r" "0 < rc"
  shows "r * r < rc * rc \<longleftrightarrow> r < rc"
proof
  assume "r < rc"
  with assms show "r * r < rc * rc" by (intro mult_strict_mono') simp_all
next
  assume a: "r * r < rc * rc"
  show "r < rc"
  proof (rule ccontr)
    assume "\<not> r < rc"
    with assms have "rc * rc \<le> r * r" by (intro mult_mono) simp_all
    with a show False by simp
  qed
qed

lemma pair_potential_cutoff: "0 < rc \<Longrightarrow> pair_potential rc rc = 0"
  by (simp add: pair_potential_def power2_eq_square field_simps)

lemma force_magnitude_cutoff: "force_magnitude rc rc = 0"
  by (simp add: force_magnitude_def)

lemma pair_potential_deriv:
  assumes "0 < rc" "0 < r"
  shows "(pair_potential rc has_real_derivative - force_magnitude rc r) (at r)"
  unfolding pair_potential_def [abs_def] force_magnitude_def
  using assms by (auto intro!: derivative_eq_intros simp: power2_eq_square field_simps)

lemma kernel_energy_inside:
  assumes "0 < rc" "0 < r" "r \<le> rc"
  shows "kernel_energy rc r = pair_potential rc r"
proof (cases "r < rc")
  case True
  then have "r * r < rc * rc" using assms sq_less_iff [of r rc] by simp
  then show ?thesis using assms
    by (simp add: kernel_energy_eq pair_potential_def power2_eq_square)
next
  case False
  then have r: "r = rc" using assms by simp
  show ?thesis using assms by (simp add: r kernel_energy_eq pair_potential_cutoff)
qed

lemma kernel_energy_outside:
  assumes "0 < rc" "rc \<le> r"
  shows "kernel_energy rc r = 0"
  using assms sq_less_iff [of r rc] by (simp add: kernel_energy_eq)

lemma kernel_force_inside:
  assumes "0 < rc" "0 < r" "r \<le> rc"
  shows "kernel_force rc r = force_magnitude rc r"
proof (cases "r < rc")
  case True
  then have "r * r < rc * rc" using assms sq_less_iff [of r rc] by simp
  then show ?thesis using assms
    by (simp add: kernel_force_eq force_magnitude_def power2_eq_square)
next
  case False
  then have r: "r = rc" using assms by simp
  show ?thesis using assms by (simp add: r kernel_force_eq force_magnitude_cutoff)
qed

lemma kernel_force_outside:
  assumes "0 < rc" "rc \<le> r"
  shows "kernel_force rc r = 0"
  using assms sq_less_iff [of r rc] by (simp add: kernel_force_eq)

lemma kernel_energy_deriv_inside:
  assumes "0 < rc" "0 < r" "r < rc"
  shows "(kernel_energy rc has_real_derivative - kernel_force rc r) (at r)"
proof -
  have "eventually (\<lambda>x. x \<in> {0<..<rc}) (nhds r)"
    using assms by (intro eventually_nhds_in_open) simp_all
  then have ev: "eventually (\<lambda>x. kernel_energy rc x = pair_potential rc x) (nhds r)"
    by (rule eventually_mono) (use assms in \<open>simp add: kernel_energy_inside\<close>)
  have "(pair_potential rc has_real_derivative - force_magnitude rc r) (at r)"
    using assms by (simp add: pair_potential_deriv)
  then have "(kernel_energy rc has_real_derivative - force_magnitude rc r) (at r)"
    using DERIV_cong_ev [OF refl ev refl] by simp
  then show ?thesis using assms by (simp add: kernel_force_inside)
qed

lemma kernel_energy_deriv_cutoff:
  assumes "0 < rc"
  shows "(kernel_energy rc has_real_derivative 0) (at rc)"
proof -
  have "(pair_potential rc has_real_derivative 0) (at rc)"
    using pair_potential_deriv [OF assms assms] by (simp add: force_magnitude_cutoff)
  then have lim: "((\<lambda>y. (pair_potential rc y - pair_potential rc rc) / (y - rc)) \<longlongrightarrow> 0) (at rc)"
    by (simp add: has_field_derivative_iff)
  have ev: "eventually (\<lambda>y. norm ((kernel_energy rc y - kernel_energy rc rc) / (y - rc))
              \<le> norm ((pair_potential rc y - pair_potential rc rc) / (y - rc)) * 1) (at rc)"
    unfolding eventually_at
  proof (intro exI [of _ rc] conjI ballI impI)
    show "0 < rc" by (rule assms)
  next
    fix y assume "y \<in> UNIV" and "y \<noteq> rc \<and> dist y rc < rc"
    then have y: "0 < y" by (auto simp add: dist_real_def)
    have c: "kernel_energy rc rc = 0"
      using assms by (simp add: kernel_energy_outside)
    show "norm ((kernel_energy rc y - kernel_energy rc rc) / (y - rc))
            \<le> norm ((pair_potential rc y - pair_potential rc rc) / (y - rc)) * 1"
    proof (cases "y \<le> rc")
      case True
      then show ?thesis using assms y
        by (simp add: kernel_energy_inside c pair_potential_cutoff)
    next
      case False
      then show ?thesis using assms by (simp add: kernel_energy_outside c)
    qed
  qed
  have "((\<lambda>y. (kernel_energy rc y - kernel_energy rc rc) / (y - rc)) \<longlongrightarrow> 0) (at rc)"
    by (rule tendsto_0_le [OF lim ev])
  then show ?thesis by (simp add: has_field_derivative_iff)
qed

lemma kernel_force_cont:
  assumes "0 < rc"
  shows "isCont (kernel_force rc) rc"
proof -
  have "isCont (force_magnitude rc) rc"
    unfolding force_magnitude_def [abs_def] using assms by (intro continuous_intros) simp_all
  then have "(force_magnitude rc \<longlongrightarrow> force_magnitude rc rc) (at rc)"
    by (simp add: isCont_def)
  then have lim: "(force_magnitude rc \<longlongrightarrow> 0) (at rc)"
    by (simp add: force_magnitude_cutoff)
  have ev: "eventually (\<lambda>y. norm (kernel_force rc y) \<le> norm (force_magnitude rc y) * 1) (at rc)"
    unfolding eventually_at
  proof (intro exI [of _ rc] conjI ballI impI)
    show "0 < rc" by (rule assms)
  next
    fix y assume "y \<in> UNIV" and "y \<noteq> rc \<and> dist y rc < rc"
    then have y: "0 < y" by (auto simp add: dist_real_def)
    show "norm (kernel_force rc y) \<le> norm (force_magnitude rc y) * 1"
    proof (cases "y \<le> rc")
      case True
      then show ?thesis using assms y by (simp add: kernel_force_inside)
    next
      case False
      then show ?thesis using assms by (simp add: kernel_force_outside)
    qed
  qed
  have "(kernel_force rc \<longlongrightarrow> 0) (at rc)"
    by (rule tendsto_0_le [OF lim ev])
  then show ?thesis using assms by (simp add: isCont_def kernel_force_outside)
qed


lemma vec_norm_pos:
  assumes "a \<noteq> (b::vec)"
  shows "0 < vec_norm (vec_sub a b)"
proof -
  have "vec_x a \<noteq> vec_x b \<or> vec_y a \<noteq> vec_y b \<or> vec_z a \<noteq> vec_z b"
    using assms by (auto intro: vec.equality)
  then have "0 < (vec_x a - vec_x b)\<^sup>2 + (vec_y a - vec_y b)\<^sup>2 + (vec_z a - vec_z b)\<^sup>2"
    by (auto simp: sum_power2_gt_zero_iff add_pos_nonneg add_nonneg_pos)
  then show ?thesis
    by (simp add: vec_norm_def vec_defs power2_eq_square)
qed

lemma kernel_by_distance:
  assumes rc: "0 < rc"
    and ij: "0 \<le> i" "i < int (length ps)" "0 \<le> j" "j < int (length ps)" "i \<noteq> j"
    and ne: "p_r (ps ! nat i) \<noteq> p_r (ps ! nat j)"
  shows "dvs_calc_force i j rc gamma (ps, stats) =
    (let p = ps ! nat i; q = ps ! nat j;
         d = vec_sub (p_r p) (p_r q);
         r = vec_norm d;
         F = vec_sclr (kernel_force rc r / r) d;
         D = (if r < rc then vec_sclr (- gamma) (vec_sub (p_v p) (p_v q)) else VEC_ZERO);
         FD = vec_inc F D
     in Some (ps[nat i := p\<lparr>p_a := vec_inc (p_a p) FD\<rparr>,
                 nat j := q\<lparr>p_a := vec_dec (p_a q) FD\<rparr>],
              stats\<lparr>ww_counter := ww_counter stats + 1,
                    real_ww_counter := real_ww_counter stats + (if r < rc then 1 else 0),
                    E_pot := E_pot stats + kernel_energy rc r\<rparr>))"
proof -
  define p q d r where "p = ps ! nat i" and "q = ps ! nat j"
    and "d = vec_sub (p_r p) (p_r q)" and "r = vec_norm d"
  have nij: "nat i \<noteq> nat j" using ij by auto
  have r0: "0 < r" using ne by (simp add: r_def d_def p_def q_def vec_norm_pos)
  have r2: "vec_magnitude2 d = r * r"
    by (simp add: r_def vec_norm_def vec_magnitude2_nonneg)
  have sq: "sqrt (vec_magnitude2 d) = r" by (simp add: r_def vec_norm_def)
  have lt: "vec_magnitude2 d < rc * rc \<longleftrightarrow> r < rc"
    unfolding r2 using r0 rc by (intro sq_less_iff) simp_all
  show ?thesis
  proof (cases "r < rc")
    case True
    have kf: "kernel_force rc r = 1 / vec_magnitude2 d - 1 / (rc * rc)"
      using True r0 rc by (simp add: kernel_force_inside force_magnitude_def r2 power2_eq_square)
    have ke: "kernel_energy rc r = 1 / r + r / (rc * rc) - 2 / rc"
      using True r0 rc by (simp add: kernel_energy_inside pair_potential_def power2_eq_square)
    show ?thesis
      using True ij nij lt
      unfolding Let_def p_def [symmetric] q_def [symmetric] d_def [symmetric] r_def [symmetric]
      by (simp add: dvs_calc_force_def rd_def modify_def Let_def p_def [symmetric]
          q_def [symmetric] d_def [symmetric] sq kf ke)
  next
    case False
    have kf: "kernel_force rc r = 0" and ke: "kernel_energy rc r = 0"
      using False rc by (simp_all add: kernel_force_outside kernel_energy_outside)
    have z: "vec_inc (vec_sclr 0 d) VEC_ZERO = VEC_ZERO"
      by (simp add: vec_defs)
    have pq: "p\<lparr>p_a := vec_inc (p_a p) VEC_ZERO\<rparr> = p" "q\<lparr>p_a := vec_dec (p_a q) VEC_ZERO\<rparr> = q"
      by (simp_all add: vec_defs)
    have upd: "ps[nat i := p, nat j := q] = ps"
      by (simp add: p_def q_def)
    show ?thesis
      using False ij nij lt
      unfolding Let_def p_def [symmetric] q_def [symmetric] d_def [symmetric] r_def [symmetric]
      by (simp add: dvs_calc_force_def rd_def Let_def p_def [symmetric]
          q_def [symmetric] d_def [symmetric] kf ke z pq upd)
  qed
qed


text \<open>
  Claim C7. Let \<open>rc > 0\<close>. The energy that the kernel adds to \<open>E_pot\<close> for a pair at the
  distance \<open>r\<close> in \<open>(0, rc]\<close> is the shifted Coulomb potential \<open>1/r + r/rc\<^sup>2 - 2/rc\<close>, and
  the radial force that it applies has the magnitude \<open>1/r\<^sup>2 - 1/rc\<^sup>2\<close>; the energy is zero
  at \<open>r = rc\<close>, and at every \<open>r\<close> in \<open>(0, rc]\<close> its derivative is minus that force
  magnitude, which is zero at \<open>r = rc\<close> and continuous there. The last part says that
  \<open>kernel_energy\<close> and \<open>kernel_force\<close> describe every call of the kernel on two particles
  at different positions: the call adds \<open>kernel_energy rc r\<close> to \<open>E_pot\<close> and the vector
  \<open>(kernel_force rc r / r) d\<close>, with the damping term inside the cutoff, to the
  accelerations, where \<open>d = p.r - q.r\<close> and \<open>r = |d|\<close>.
\<close>

theorem shifted_coulomb:
  assumes "0 < rc"
  shows "kernel_energy rc rc = 0 \<and> kernel_force rc rc = 0 \<and> isCont (kernel_force rc) rc \<and>
         (\<forall>r. 0 < r \<and> r \<le> rc \<longrightarrow>
            kernel_energy rc r = pair_potential rc r \<and>
            kernel_force rc r = force_magnitude rc r \<and>
            (pair_potential rc has_real_derivative - force_magnitude rc r) (at r) \<and>
            (kernel_energy rc has_real_derivative - kernel_force rc r) (at r)) \<and>
         (\<forall>ps stats i j gamma.
            0 \<le> i \<and> i < int (length ps) \<and> 0 \<le> j \<and> j < int (length ps) \<and> i \<noteq> j \<and>
            p_r (ps ! nat i) \<noteq> p_r (ps ! nat j) \<longrightarrow>
            dvs_calc_force i j rc gamma (ps, stats) =
              (let p = ps ! nat i; q = ps ! nat j;
                   d = vec_sub (p_r p) (p_r q);
                   r = vec_norm d;
                   F = vec_sclr (kernel_force rc r / r) d;
                   D = (if r < rc then vec_sclr (- gamma) (vec_sub (p_v p) (p_v q)) else VEC_ZERO);
                   FD = vec_inc F D
               in Some (ps[nat i := p\<lparr>p_a := vec_inc (p_a p) FD\<rparr>,
                           nat j := q\<lparr>p_a := vec_dec (p_a q) FD\<rparr>],
                        stats\<lparr>ww_counter := ww_counter stats + 1,
                              real_ww_counter := real_ww_counter stats + (if r < rc then 1 else 0),
                              E_pot := E_pot stats + kernel_energy rc r\<rparr>)))"
proof (intro conjI allI impI)
  show "kernel_energy rc rc = 0" using assms by (simp add: kernel_energy_outside)
  show "kernel_force rc rc = 0" using assms by (simp add: kernel_force_outside)
  show "isCont (kernel_force rc) rc" using assms by (rule kernel_force_cont)
next
  fix r assume "0 < r \<and> r \<le> rc"
  then show "kernel_energy rc r = pair_potential rc r"
    using assms by (simp add: kernel_energy_inside)
next
  fix r assume "0 < r \<and> r \<le> rc"
  then show "kernel_force rc r = force_magnitude rc r"
    using assms by (simp add: kernel_force_inside)
next
  fix r assume "0 < r \<and> r \<le> rc"
  then show "(pair_potential rc has_real_derivative - force_magnitude rc r) (at r)"
    using assms by (simp add: pair_potential_deriv)
next
  fix r assume r: "0 < r \<and> r \<le> rc"
  show "(kernel_energy rc has_real_derivative - kernel_force rc r) (at r)"
  proof (cases "r < rc")
    case True
    with r assms show ?thesis by (simp add: kernel_energy_deriv_inside)
  next
    case False
    with r have "r = rc" by simp
    with assms show ?thesis
      by (simp add: kernel_energy_deriv_cutoff kernel_force_outside)
  qed
next
  fix ps :: "Particle list" and stats :: Stats and i j :: int and gamma :: real
  assume "0 \<le> i \<and> i < int (length ps) \<and> 0 \<le> j \<and> j < int (length ps) \<and> i \<noteq> j \<and>
          p_r (ps ! nat i) \<noteq> p_r (ps ! nat j)"
  then show "dvs_calc_force i j rc gamma (ps, stats) =
              (let p = ps ! nat i; q = ps ! nat j;
                   d = vec_sub (p_r p) (p_r q);
                   r = vec_norm d;
                   F = vec_sclr (kernel_force rc r / r) d;
                   D = (if r < rc then vec_sclr (- gamma) (vec_sub (p_v p) (p_v q)) else VEC_ZERO);
                   FD = vec_inc F D
               in Some (ps[nat i := p\<lparr>p_a := vec_inc (p_a p) FD\<rparr>,
                           nat j := q\<lparr>p_a := vec_dec (p_a q) FD\<rparr>],
                        stats\<lparr>ww_counter := ww_counter stats + 1,
                              real_ww_counter := real_ww_counter stats + (if r < rc then 1 else 0),
                              E_pot := E_pot stats + kernel_energy rc r\<rparr>))"
    using assms by (intro kernel_by_distance) simp_all
qed

theorem shifted_coulomb_witness:
  "(0::real) < 2 \<and> (0::real) < 1 \<and> (1::real) \<le> 2 \<and>
   kernel_energy 2 2 = 0 \<and> kernel_force 2 2 = 0 \<and> isCont (kernel_force 2) 2 \<and>
   kernel_energy 2 1 = 1 / 4 \<and> kernel_force 2 1 = 3 / 4 \<and>
   (kernel_energy 2 has_real_derivative - (3 / 4)) (at 1) \<and>
   (pair_potential 2 has_real_derivative - (3 / 4)) (at 1) \<and>
   (0::int) < int (length [Pa, Pb]) \<and> (1::int) < int (length [Pa, Pb]) \<and> p_r Pa \<noteq> p_r Pb \<and>
   dvs_calc_force 0 1 2 1 ([Pa, Pb], St0) =
     Some ([Pa\<lparr>p_a := \<lparr>vec_x = 3 / 4, vec_y = - 1, vec_z = 0\<rparr>\<rparr>,
            Pb\<lparr>p_a := \<lparr>vec_x = - 3 / 4, vec_y = 1, vec_z = 0\<rparr>\<rparr>],
           \<lparr>ww_counter = 1, real_ww_counter = 1, E_pot = 1 / 4\<rparr>)"
proof -
  have pos: "(0::real) < 2" by simp
  note t = shifted_coulomb [OF pos]
  note a = t [THEN conjunct1] t [THEN conjunct2, THEN conjunct1]
    t [THEN conjunct2, THEN conjunct2, THEN conjunct1]
  note b = t [THEN conjunct2, THEN conjunct2, THEN conjunct2, THEN conjunct1]
  note d = t [THEN conjunct2, THEN conjunct2, THEN conjunct2, THEN conjunct2]
  have "(0::real) < 1 \<and> (1::real) \<le> 2" by simp
  from b [rule_format, OF this]
  have c0: "kernel_energy 2 1 = pair_potential 2 1" "kernel_force 2 1 = force_magnitude 2 1"
    "(kernel_energy 2 has_real_derivative - kernel_force 2 1) (at 1)"
    "(pair_potential 2 has_real_derivative - force_magnitude 2 1) (at 1)"
    by blast+
  have c: "kernel_energy 2 1 = 1 / 4" "kernel_force 2 1 = 3 / 4"
    by (simp_all add: c0 pair_potential_def force_magnitude_def)
  have c': "(kernel_energy 2 has_real_derivative - (3 / 4)) (at 1)"
    using c0(3) unfolding c(2) .
  have c'': "(pair_potential 2 has_real_derivative - (3 / 4)) (at 1)"
    using c0(4) unfolding c0(2) [symmetric] c(2) .
  have n: "vec_norm (vec_sub (p_r Pa) (p_r Pb)) = 1"
    by (simp add: Pa_def Pb_def vec_norm_def vec_defs)
  have ne: "p_r Pa \<noteq> p_r Pb" by (simp add: Pa_def Pb_def)
  from d [rule_format, of 0 "[Pa, Pb]" 1 1 St0] ne
  have e: "dvs_calc_force 0 1 2 1 ([Pa, Pb], St0) =
     Some ([Pa\<lparr>p_a := \<lparr>vec_x = 3 / 4, vec_y = - 1, vec_z = 0\<rparr>\<rparr>,
            Pb\<lparr>p_a := \<lparr>vec_x = - 3 / 4, vec_y = 1, vec_z = 0\<rparr>\<rparr>],
           \<lparr>ww_counter = 1, real_ww_counter = 1, E_pot = 1 / 4\<rparr>)"
    by (simp add: Let_def n c) (simp add: Pa_def Pb_def St0_def vec_defs)
  from a c c' c'' e ne show ?thesis by simp
qed

section \<open>Sequences of kernel calls\<close>

lemma vsum_Nil: "vsum [] = VEC_ZERO"
  by (simp add: vsum_def VEC_ZERO_def)

lemma vsum_Cons: "vsum (v # vs) = vec_inc v (vsum vs)"
  by (simp add: vsum_def vec_inc_def)

lemma vsum_append: "vsum (vs @ ws) = vec_inc (vsum vs) (vsum ws)"
  by (simp add: vsum_def vec_inc_def)

lemma vec_inc_assoc: "vec_inc (vec_inc a b) c = vec_inc a (vec_inc b c)"
  by (simp add: vec_inc_def)

lemma vec_inc_zero: "vec_inc a VEC_ZERO = a"
  by (simp add: vec_inc_def VEC_ZERO_def)

lemma vec_dec_inc: "vec_dec a b = vec_inc a (vec_sclr (- 1) b)"
  by (simp add: vec_inc_def vec_dec_def vec_sclr_def)

lemma kernel_step:
  assumes "valid_pair ps pr" "same_rv ps0 ps"
  shows "dvs_calc_force (fst pr) (snd pr) c g (ps, st) =
           Some (add_forces c g ps0 [pr] ps, add_stats c ps0 [pr] st)"
proof -
  obtain i j where pr: "pr = (i, j)" by (cases pr)
  have v: "0 \<le> i" "i < int (length ps)" "0 \<le> j" "j < int (length ps)" "i \<noteq> j"
    using assms(1) by (simp_all add: valid_pair_def pr)
  then have ne: "nat i \<noteq> nat j" by auto
  have len: "length ps = length ps0" using assms(2) by (simp add: same_rv_def)
  have rv: "p_r (ps ! nat i) = p_r (ps0 ! nat i)" "p_v (ps ! nat i) = p_v (ps0 ! nat i)"
    "p_r (ps ! nat j) = p_r (ps0 ! nat j)" "p_v (ps ! nat j) = p_v (ps0 ! nat j)"
    using assms(2) v by (simp_all add: same_rv_def)
  show ?thesis
  proof (cases "within_cutoff c (ps0 ! nat i) (ps0 ! nat j)")
    case False
    have "add_forces c g ps0 [pr] ps = ps"
      using False
      by (intro nth_equalityI)
        (simp_all add: add_forces_def contrib_def Let_def pr vsum_Cons vsum_Nil vec_inc_zero)
    with False v show ?thesis
      by (simp add: dvs_calc_force_def rd_def Let_def within_cutoff_def rv add_stats_def
          interacting_def pr)
  next
    case True
    let ?F = "pair_force c g (ps0 ! nat i) (ps0 ! nat j)"
    have "ps[nat i := (ps ! nat i)\<lparr>p_a := vec_inc (p_a (ps ! nat i)) ?F\<rparr>,
             nat j := (ps ! nat j)\<lparr>p_a := vec_dec (p_a (ps ! nat j)) ?F\<rparr>]
          = add_forces c g ps0 [pr] ps"
      using True v ne
      by (intro nth_equalityI)
        (auto simp: add_forces_def contrib_def Let_def pr vsum_Cons vsum_Nil vec_inc_zero
          nth_list_update vec_dec_inc)
    with True v ne show ?thesis
      by (simp add: dvs_calc_force_def rd_def modify_def Let_def within_cutoff_def rv
          add_stats_def interacting_def pr pair_force_def pair_energy_def)
  qed
qed

lemma add_forces_length: "length (add_forces c g ps0 prs ps) = length ps"
  by (simp add: add_forces_def)

lemma add_forces_same_rv: "same_rv ps0 ps \<Longrightarrow> same_rv ps0 (add_forces c g ps0 prs ps)"
  by (simp add: same_rv_def add_forces_def)

lemma add_forces_add_forces:
  "add_forces c g ps0 prs' (add_forces c g ps0 prs ps) = add_forces c g ps0 (prs @ prs') ps"
  by (intro nth_equalityI) (simp_all add: add_forces_def vsum_append vec_inc_assoc)

lemma add_stats_add_stats:
  "add_stats c ps0 prs' (add_stats c ps0 prs st) = add_stats c ps0 (prs @ prs') st"
  by (simp add: add_stats_def)

lemma ofold_kernel:
  assumes "\<forall>pr \<in> set prs. valid_pair ps0 pr" "same_rv ps0 ps"
  shows "ofold (\<lambda>pr. dvs_calc_force (fst pr) (snd pr) c g) prs (ps, st) =
           Some (add_forces c g ps0 prs ps, add_stats c ps0 prs st)"
  using assms
proof (induction prs arbitrary: ps st)
  case Nil
  have "add_forces c g ps0 [] ps = ps"
    by (intro nth_equalityI) (simp_all add: add_forces_def vsum_Nil vec_inc_zero)
  then show ?case by (simp add: add_stats_def)
next
  case (Cons pr prs)
  have vp: "valid_pair ps pr"
    using Cons.prems by (simp add: valid_pair_def same_rv_def)
  have step: "dvs_calc_force (fst pr) (snd pr) c g (ps, st) =
           Some (add_forces c g ps0 [pr] ps, add_stats c ps0 [pr] st)"
    using kernel_step [OF vp Cons.prems(2)] .
  have "ofold (\<lambda>pr. dvs_calc_force (fst pr) (snd pr) c g) prs
          (add_forces c g ps0 [pr] ps, add_stats c ps0 [pr] st) =
        Some (add_forces c g ps0 prs (add_forces c g ps0 [pr] ps),
              add_stats c ps0 prs (add_stats c ps0 [pr] st))"
    using Cons.prems by (intro Cons.IH add_forces_same_rv) simp_all
  then show ?case
    by (simp add: step add_forces_add_forces add_stats_add_stats)
qed

section \<open>The brute force sweep\<close>

lemma ofold_concat: "ofold f (concat xss) s = ofold (\<lambda>xs. ofold f xs) xss s"
  by (induction xss arbitrary: s) (auto simp: ofold_append split: option.splits)

lemma ofold_map: "ofold f (map h xs) s = ofold (\<lambda>x. f (h x)) xs s"
  by (induction xs arbitrary: s) (auto split: option.splits)

lemma ofold_cong: "(\<And>x s. x \<in> set xs \<Longrightarrow> f x s = g x s) \<Longrightarrow> ofold f xs s = ofold g xs s"
  by (induction xs arbitrary: s) (auto split: option.splits)

lemma brute_forces_ofold:
  "dvs_calc_brute_forces N first_particle last_particle c g s =
     ofold (\<lambda>pr. dvs_calc_force (fst pr) (snd pr) c g) (brute_pairs N first_particle last_particle) s"
  unfolding dvs_calc_brute_forces_def brute_pairs_def for_loop_ofold ofold_concat ofold_map
  by simp

lemma distinct_concat_Pair:
  "distinct xs \<Longrightarrow> (\<And>x. distinct (h x)) \<Longrightarrow> distinct (concat (map (\<lambda>i. map (Pair i) (h i)) xs))"
  by (induction xs) (auto simp: distinct_map inj_on_def)

lemma distinct_brute_pairs: "distinct (brute_pairs N first_particle last_particle)"
  unfolding brute_pairs_def by (intro distinct_concat_Pair) simp_all

lemma set_brute_pairs:
  "set (brute_pairs N first_particle last_particle) = {(i, j). first_particle \<le> i \<and> i < last_particle \<and> i < j \<and> j < N}"
  by (auto simp: brute_pairs_def)

text \<open>
  Claim C8. \<open>dvs_calc_brute_forces\<close> is the sequence of kernel calls on the list
  \<open>brute_pairs\<close>; this list has no repetition and its elements are exactly the pairs
  \<open>(i, j)\<close> with \<open>first \<le> i < last\<close> and \<open>i < j < N\<close>. When the range starts at a valid index
  (\<open>0 \<le> first\<close>) and the array holds \<open>N\<close> particles, the sweep returns and \<open>ww_counter\<close> has
  grown by the number of these pairs.
\<close>

theorem brute_forces_pairs:
  assumes "0 \<le> first_particle" and "N \<le> int (length ps)"
  shows "dvs_calc_brute_forces N first_particle last_particle rc gamma (ps, st) =
           ofold (\<lambda>pr. dvs_calc_force (fst pr) (snd pr) rc gamma) (brute_pairs N first_particle last_particle) (ps, st) \<and>
         distinct (brute_pairs N first_particle last_particle) \<and>
         set (brute_pairs N first_particle last_particle) = {(i, j). first_particle \<le> i \<and> i < last_particle \<and> i < j \<and> j < N} \<and>
         (\<exists>ps' st'. dvs_calc_brute_forces N first_particle last_particle rc gamma (ps, st) = Some (ps', st') \<and>
            ww_counter st' =
              ww_counter st + int (card {(i, j). first_particle \<le> i \<and> i < last_particle \<and> i < j \<and> j < N}))"
proof -
  have valid: "\<forall>pr \<in> set (brute_pairs N first_particle last_particle). valid_pair ps pr"
    using assms by (auto simp: set_brute_pairs valid_pair_def)
  have "same_rv ps ps" by (simp add: same_rv_def)
  from ofold_kernel [OF valid this]
  have "dvs_calc_brute_forces N first_particle last_particle rc gamma (ps, st) =
          Some (add_forces rc gamma ps (brute_pairs N first_particle last_particle) ps,
                add_stats rc ps (brute_pairs N first_particle last_particle) st)"
    by (simp add: brute_forces_ofold)
  moreover have "card {(i, j). first_particle \<le> i \<and> i < last_particle \<and> i < j \<and> j < N} = length (brute_pairs N first_particle last_particle)"
    using distinct_card [OF distinct_brute_pairs, of N first_particle last_particle] by (simp add: set_brute_pairs)
  ultimately show ?thesis
    by (simp add: brute_forces_ofold distinct_brute_pairs set_brute_pairs add_stats_def)
qed

theorem brute_forces_pairs_witness:
  "(0::int) \<le> 0 \<and> (3::int) \<le> int (length [Pa, Pb, P0]) \<and>
   brute_pairs 3 0 2 = [(0, 1), (0, 2), (1, 2)] \<and>
   (\<exists>ps' st'. dvs_calc_brute_forces 3 0 2 2 1 ([Pa, Pb, P0], St0) = Some (ps', st') \<and>
      ww_counter st' = 3)"
proof -
  have l: "brute_pairs 3 0 2 = [(0, 1), (0, 2), (1, 2)]"
    by (simp add: brute_pairs_def upto.simps)
  have "card {(i, j). (0::int) \<le> i \<and> i < 2 \<and> i < j \<and> j < (3::int)} = card (set (brute_pairs 3 0 2))"
    by (simp only: set_brute_pairs)
  also have "\<dots> = 3"
    unfolding l by simp
  finally have c: "card {(i, j). (0::int) \<le> i \<and> i < 2 \<and> i < j \<and> j < (3::int)} = 3" .
  have h: "(0::int) \<le> 0" "(3::int) \<le> int (length [Pa, Pb, P0])"
    by simp_all
  from brute_forces_pairs [OF h, of 2 2 1 St0]
  have "\<exists>ps' st'. dvs_calc_brute_forces 3 0 2 2 1 ([Pa, Pb, P0], St0) = Some (ps', st') \<and>
          ww_counter st' = ww_counter St0 + int 3"
    unfolding c by (elim conjE)
  then show ?thesis
    using l by (simp add: St0_def)
qed

section \<open>Filling the cell grid\<close>

lemma chain_update: "chain nx h xs \<Longrightarrow> int k \<notin> set xs \<Longrightarrow> chain (nx[k := v]) h xs"
proof (induction xs arbitrary: h)
  case Nil
  then show ?case by simp
next
  case (Cons x xs)
  then have "nat x \<noteq> k" by auto
  with Cons show ?case by simp
qed

lemma bin_index_range:
  "1 \<le> binning cs \<Longrightarrow> 0 \<le> bin_index cs c \<and> bin_index cs c < binning cs"
  by (simp add: bin_index_def)

lemma encode_range:
  fixes L :: int
  assumes "0 \<le> x" "x < L" "0 \<le> y" "y < L" "0 \<le> z" "z < L"
  shows "0 \<le> x + y * L + z * (L * L)" "x + y * L + z * (L * L) < L * L * L"
proof -
  have L: "0 \<le> L" using assms by simp
  have y: "y * L \<le> (L - 1) * L"
    using assms L by (intro mult_right_mono) simp_all
  have z: "z * (L * L) \<le> (L - 1) * (L * L)"
    using assms L by (intro mult_right_mono) simp_all
  show "0 \<le> x + y * L + z * (L * L)"
    using assms L by simp
  have "x + y * L + z * (L * L) \<le> (L - 1) + (L - 1) * L + (L - 1) * (L * L)"
    using assms y z by linarith
  also have "\<dots> < L * L * L"
    by (simp add: algebra_simps)
  finally show "x + y * L + z * (L * L) < L * L * L" .
qed

lemma cell_number_range:
  assumes "Cells_ok cs"
  shows "0 \<le> cell_number cs p" "cell_number cs p < num_cells cs"
proof -
  have L: "1 \<le> binning cs" and n: "num_cells cs = binning cs * binning cs * binning cs"
    using assms by (simp_all add: Cells_ok_def)
  note b = bin_index_range [OF L]
  show "0 \<le> cell_number cs p" "cell_number cs p < num_cells cs"
    unfolding cell_number_def Let_def n
    using encode_range [of "bin_index cs (vec_x (p_r p))" "binning cs"
        "bin_index cs (vec_y (p_r p))" "bin_index cs (vec_z (p_r p))"] b
    by simp_all
qed

lemma Cells_clear_ok:
  assumes "Cells_ok cs"
  shows "Cells_clear cs = Some (cs\<lparr>cells := replicate (length (cells cs)) (- 1)\<rparr>)"
proof -
  have n: "num_cells cs = int (length (cells cs))"
    using assms by (simp add: Cells_ok_def)
  have "map (\<lambda>_. - 1) (cells cs) = replicate (length (cells cs)) (- 1 :: int)"
    by (simp add: map_replicate_const)
  then show ?thesis
    using for_loop_modify [of "num_cells cs" "cells cs" "\<lambda>_. - 1"] n
    by (simp add: Cells_clear_def)
qed

lemma bucket_Suc:
  "bucket (int (Suc n)) ps cs c =
     (if cell_number cs (ps ! n) = c then int n # bucket (int n) ps cs c else bucket (int n) ps cs c)"
  by (simp add: bucket_def upto_rec2)

lemma set_bucket: "set (bucket N ps cs c) = {i. 0 \<le> i \<and> i < N \<and> cell_number cs (ps ! nat i) = c}"
  by (auto simp: bucket_def)

lemma cell_number_cells_update [simp]: "cell_number (cs\<lparr>cells := c\<rparr>) p = cell_number cs p"
  by (simp add: cell_number_def bin_index_def)

lemma cell_number_cong: "p_r p = p_r q \<Longrightarrow> cell_number cs p = cell_number cs q"
  by (simp add: cell_number_def)

lemma populate_step_populated:
  assumes ok: "Cells_ok cs" and n: "n < length ps" and inv: "populated n ps cs s"
  shows "\<exists>s'. populate_step (int n) s = Some s' \<and> populated (Suc n) ps cs s'"
proof -
  obtain ps' c' where s: "s = (ps', cs\<lparr>cells := c'\<rparr>)"
    and len: "length ps' = length ps"
    and same: "\<forall>k < length ps. p_r (ps' ! k) = p_r (ps ! k) \<and> p_v (ps' ! k) = p_v (ps ! k) \<and>
           p_a (ps' ! k) = p_a (ps ! k)"
    and lc: "length c' = length (cells cs)"
    and ch: "\<forall>c. 0 \<le> c \<and> c < num_cells cs \<longrightarrow>
              chain (map p_next ps') (c' ! nat c) (bucket (int n) ps cs c)"
    using inv by (auto simp: populated_def)
  define cn where "cn = cell_number cs (ps ! n)"
  have cn: "0 \<le> cn" "cn < num_cells cs"
    unfolding cn_def using cell_number_range [OF ok] by simp_all
  have nc: "num_cells cs = int (length (cells cs))"
    using ok by (simp add: Cells_ok_def)
  have cn': "cell_number cs (ps' ! n) = cn"
    unfolding cn_def using same n by (intro cell_number_cong) simp
  define head where "head = c' ! nat cn"
  define ps'' where "ps'' = ps'[n := (ps' ! n)\<lparr>p_next := head\<rparr>]"
  define c'' where "c'' = c'[nat cn := int n]"
  have step: "populate_step (int n) s = Some (ps'', cs\<lparr>cells := c''\<rparr>)"
    using n len lc cn nc
    by (simp add: populate_step_def s rd_def modify_def Let_def cn' head_def ps''_def c''_def)
  have nx: "map p_next ps'' = (map p_next ps')[n := head]"
    by (simp add: ps''_def map_update)
  have notin: "int n \<notin> set (bucket (int n) ps cs c)" for c
    by (simp add: set_bucket)
  have "chain (map p_next ps'') (c'' ! nat c) (bucket (int (Suc n)) ps cs c)"
    if c: "0 \<le> c" "c < num_cells cs" for c
  proof (cases "c = cn")
    case True
    have "chain ((map p_next ps')[n := head]) head (bucket (int n) ps cs cn)"
      unfolding head_def using ch cn by (intro chain_update notin) simp
    then show ?thesis
      unfolding bucket_Suc using n len lc cn nc
      by (simp add: True nx cn_def [symmetric] c''_def)
  next
    case False
    then have "nat c \<noteq> nat cn" using c cn by auto
    moreover have "chain ((map p_next ps')[n := head]) (c' ! nat c) (bucket (int n) ps cs c)"
      using ch c by (intro chain_update notin) simp
    ultimately show ?thesis
      unfolding bucket_Suc using False by (simp add: nx cn_def [symmetric] c''_def)
  qed
  moreover have "\<forall>k < length ps. p_r (ps'' ! k) = p_r (ps ! k) \<and> p_v (ps'' ! k) = p_v (ps ! k) \<and>
           p_a (ps'' ! k) = p_a (ps ! k)"
    using same len n by (auto simp: ps''_def nth_list_update)
  ultimately have "populated (Suc n) ps cs (ps'', cs\<lparr>cells := c''\<rparr>)"
    using len lc by (auto simp: populated_def ps''_def c''_def)
  with step show ?thesis by blast
qed

lemma populate_loop:
  assumes ok: "Cells_ok cs" and inv: "populated 0 ps cs s"
  shows "n \<le> length ps \<Longrightarrow>
         \<exists>s'. for_loop 0 (int n) populate_step s = Some s' \<and> populated n ps cs s'"
proof (induction n)
  case 0
  then show ?case using inv by (simp add: for_loop_ofold)
next
  case (Suc n)
  then obtain s' where s': "ofold populate_step [0..int n - 1] s = Some s'" "populated n ps cs s'"
    by (auto simp: for_loop_ofold)
  from populate_step_populated [OF ok _ s'(2)] Suc.prems
  obtain s'' where "populate_step (int n) s' = Some s''" "populated (Suc n) ps cs s''"
    by auto
  with s' show ?case
    unfolding for_loop_ofold upto_nat_Suc ofold_append by simp
qed

lemma bucket_empty: "N \<le> 0 \<Longrightarrow> bucket N ps cs c = []"
  by (simp add: bucket_def)

lemma populate_cells_populated:
  assumes ok: "Cells_ok cs" and N: "N \<le> int (length ps)"
  shows "\<exists>s'. dvs_populate_cells N ps cs = Some s' \<and> populated (nat N) ps cs s'"
proof -
  let ?cs = "cs\<lparr>cells := replicate (length (cells cs)) (- 1)\<rparr>"
  have nc: "num_cells cs = int (length (cells cs))"
    using ok by (simp add: Cells_ok_def)
  have ok': "Cells_ok ?cs"
    using ok by (simp add: Cells_ok_def)
  have init: "populated 0 ps ?cs (ps, ?cs)"
    using nc by (auto simp: populated_def bucket_empty)
  have eq: "populated n ps ?cs s = populated n ps cs s" for n s
    by (auto simp: populated_def bucket_def)
  show ?thesis
  proof (cases "0 \<le> N")
    case True
    with populate_loop [OF ok' init, of "nat N"] N show ?thesis
      by (simp add: dvs_populate_cells_def Cells_clear_ok [OF ok] eq)
  next
    case False
    then have "for_loop 0 N populate_step (ps, ?cs) = Some (ps, ?cs)"
      by (simp add: for_loop_ofold)
    moreover have "nat N = 0" using False by simp
    ultimately show ?thesis
      using init by (simp add: dvs_populate_cells_def Cells_clear_ok [OF ok] eq)
  qed
qed

lemma for_linked_chain:
  assumes "chain nx h xs" and "map p_next (arr s) = nx"
    and "\<And>i s s'. i \<in> set xs \<Longrightarrow> map p_next (arr s) = nx \<Longrightarrow> body i s = Some s' \<Longrightarrow>
           map p_next (arr s') = nx"
  shows "for_linked arr body h s = ofold body xs s"
  using assms
proof (induction xs arbitrary: h s)
  case Nil
  then show ?case by (subst for_linked.simps) simp
next
  case (Cons x xs)
  from Cons.prems(1) have hx: "h = x" "0 \<le> x" "x < int (length nx)"
    and ch: "chain nx (nx ! nat x) xs"
    by simp_all
  show ?case
  proof (cases "body x s")
    case None
    then show ?thesis using hx by (subst for_linked.simps) simp
  next
    case (Some s')
    have nx': "map p_next (arr s') = nx"
      using Cons.prems(3) [OF _ Cons.prems(2) Some] by simp
    then have len: "length (arr s') = length nx"
      by (metis length_map)
    have "nat x < length (arr s')"
      using hx len by simp
    then have "map p_next (arr s') ! nat x = p_next (arr s' ! nat x)"
      by (rule nth_map)
    then have nxt: "p_next (arr s' ! nat x) = nx ! nat x"
      by (simp only: nx')
    have "for_linked arr body (nx ! nat x) s' = ofold body xs s'"
      using Cons.prems(3) by (intro Cons.IH [OF ch nx']) auto
    then show ?thesis
      using hx Some len nxt by (subst for_linked.simps) (simp add: rd_def)
  qed
qed

lemma ofold_visit: "ofold visit xs (ps, acc) = Some (ps, acc @ xs)"
  by (induction xs arbitrary: acc) (simp_all add: visit_def)

lemma walk_chain:
  assumes "chain (map p_next ps) h xs"
  shows "for_linked fst visit h (ps, acc) = Some (ps, acc @ xs)"
proof -
  have "for_linked fst visit h (ps, acc) = ofold visit xs (ps, acc)"
    by (rule for_linked_chain [OF assms]) (auto simp: visit_def)
  then show ?thesis by (simp add: ofold_visit)
qed

lemma walk_loop:
  assumes "\<forall>c. 0 \<le> c \<and> c < int (length hs) \<longrightarrow> chain (map p_next ps) (hs ! nat c) (b c)"
  shows "n \<le> length hs \<Longrightarrow>
         for_loop 0 (int n)
           (\<lambda>c s. case rd hs c of None \<Rightarrow> None | Some head \<Rightarrow> for_linked fst visit head s)
           (ps, []) = Some (ps, concat (map b [0..int n - 1]))"
proof (induction n)
  case 0
  then show ?case by (simp add: for_loop_ofold)
next
  case (Suc n)
  then have "chain (map p_next ps) (hs ! n) (b (int n))"
    using assms by (metis Suc_le_lessD nat_int of_nat_0_le_iff of_nat_less_iff)
  from walk_chain [OF this] Suc show ?case
    unfolding for_loop_ofold upto_nat_Suc ofold_append by (simp add: rd_def)
qed

lemma distinct_concat_keyed:
  assumes "distinct ks"
    and "\<And>k. k \<in> set ks \<Longrightarrow> distinct (f k)"
    and "\<And>k x. k \<in> set ks \<Longrightarrow> x \<in> set (f k) \<Longrightarrow> key x = k"
  shows "distinct (concat (map f ks))"
  using assms
proof (induction ks)
  case Nil
  then show ?case by simp
next
  case (Cons k ks)
  have "set (f k) \<inter> set (f k') = {}" if "k' \<in> set ks" for k'
  proof -
    have "k \<noteq> k'" using Cons.prems(1) that by auto
    then show ?thesis
      using Cons.prems(3) [of k] Cons.prems(3) [of k'] that by fastforce
  qed
  moreover have "distinct (concat (map f ks))"
    using Cons.prems by (intro Cons.IH) auto
  ultimately show ?case
    using Cons.prems(2) by auto
qed

lemma distinct_bucket: "distinct (bucket N ps cs c)"
  by (simp add: bucket_def)

lemma Cells_new_ok: "1 \<le> L \<Longrightarrow> Cells_ok (Cells_new L n junk)"
  by (simp add: Cells_ok_def Cells_new_def)

text \<open>
  Claim C5. For a grid with binning \<open>L \<ge> 1\<close> and an array of at least \<open>N\<close> particles at
  arbitrary positions, \<open>dvs_populate_cells\<close> returns, and the walk of the lists of all
  \<open>L\<^sup>3\<close> cells in the result returns a list without repetition whose elements are exactly
  the indices \<open>0, \<dots>, N - 1\<close>.
\<close>

theorem populate_cells_partition:
  assumes "Cells_ok cs" and "N \<le> int (length ps)"
  shows "\<exists>ps' cs'. dvs_populate_cells N ps cs = Some (ps', cs') \<and>
           (\<exists>xs. walk_all ps' cs' = Some xs \<and> distinct xs \<and> set xs = {0..<N})"
proof -
  from populate_cells_populated [OF assms]
  obtain ps' c' where pop: "dvs_populate_cells N ps cs = Some (ps', cs\<lparr>cells := c'\<rparr>)"
    and lc: "length c' = length (cells cs)"
    and ch: "\<forall>c. 0 \<le> c \<and> c < num_cells cs \<longrightarrow>
               chain (map p_next ps') (c' ! nat c) (bucket (int (nat N)) ps cs c)"
    by (auto simp: populated_def)
  have nc: "num_cells cs = int (length c')"
    using assms(1) lc by (simp add: Cells_ok_def)
  define xs where "xs = concat (map (bucket (int (nat N)) ps cs) [0..num_cells cs - 1])"
  have "walk_all ps' (cs\<lparr>cells := c'\<rparr>) = Some xs"
    using walk_loop [of c' ps' "bucket (int (nat N)) ps cs" "length c'"] ch
    by (simp add: walk_all_def nc xs_def)
  moreover have "distinct xs"
    unfolding xs_def
    by (rule distinct_concat_keyed [where key = "\<lambda>i. cell_number cs (ps ! nat i)"])
      (auto simp: distinct_bucket set_bucket)
  moreover have "set xs = {0..<N}"
    using cell_number_range [OF assms(1)] by (auto simp: xs_def set_bucket)
  ultimately show ?thesis
    using pop by blast
qed

theorem populate_cells_partition_witness:
  "Cells_ok (Cells_new 2 2 (\<lambda>_. 5)) \<and> (2::int) \<le> int (length [Pa, Pb]) \<and>
   (\<exists>ps' cs'. dvs_populate_cells 2 [Pa, Pb] (Cells_new 2 2 (\<lambda>_. 5)) = Some (ps', cs') \<and>
      (\<exists>xs. walk_all ps' cs' = Some xs \<and> distinct xs \<and> set xs = {0, 1}))"
proof -
  have ok: "Cells_ok (Cells_new 2 2 (\<lambda>_. 5))"
    by (rule Cells_new_ok) simp
  have len: "(2::int) \<le> int (length [Pa, Pb])"
    by simp
  have "{0..<2::int} = {0, 1}"
    by auto
  with populate_cells_partition [OF ok len] ok len show ?thesis
    by simp
qed

section \<open>The cell sweep as a sequence of kernel calls\<close>

lemma map_next_update:
  assumes "p_next q = p_next (ps ! k)"
  shows "map p_next (ps[k := q]) = map p_next ps"
proof (cases "k < length ps")
  case True
  then show ?thesis
    using assms by (intro nth_equalityI) (simp_all add: nth_list_update)
next
  case False
  then show ?thesis by (simp add: not_less list_update_beyond)
qed

lemma calc_force_next:
  assumes "dvs_calc_force i j c g s = Some s'"
  shows "map p_next (fst s') = map p_next (fst s)"
proof -
  obtain ps st where s: "s = (ps, st)" by (cases s)
  let ?upd = "\<lambda>ps k v. ps[k := (ps ! k)\<lparr>p_a := v\<rparr>]"
  have 1: "map p_next (?upd ps k v) = map p_next ps" for ps :: "Particle list" and k v
    by (rule map_next_update) simp
  from assms consider "fst s' = ps"
    | v w where "fst s' = ?upd (?upd ps (nat i) v) (nat j) w"
    unfolding s dvs_calc_force_def Let_def rd_def modify_def
    by (auto split: if_splits)
  then show ?thesis
    by cases (simp_all add: s 1)
qed

lemma ofold_invariant:
  assumes "ofold f xs s = Some s'" and "I s"
    and "\<And>x s s'. x \<in> set xs \<Longrightarrow> I s \<Longrightarrow> f x s = Some s' \<Longrightarrow> I s'"
  shows "I s'"
  using assms
proof (induction xs arbitrary: s)
  case Nil
  then show ?case by simp
next
  case (Cons x xs)
  then obtain s1 where s1: "f x s = Some s1" "ofold f xs s1 = Some s'"
    by (auto split: option.splits)
  have "I s1" using Cons.prems(3) [OF _ Cons.prems(2) s1(1)] by simp
  then show ?case
    using Cons.prems(3) by (intro Cons.IH [OF s1(2)]) auto
qed

lemma ofold_kernel_next:
  assumes "ofold (\<lambda>pr. dvs_calc_force (fst pr) (snd pr) c g) prs s = Some s'"
    and "map p_next (fst s) = nx"
  shows "map p_next (fst s') = nx"
proof (rule ofold_invariant [OF assms(1), where I = "\<lambda>s. map p_next (fst s) = nx"])
  show "map p_next (fst s) = nx" by (rule assms(2))
next
  fix pr :: "int \<times> int" and s s' :: state
  assume "map p_next (fst s) = nx" "dvs_calc_force (fst pr) (snd pr) c g s = Some s'"
  then show "map p_next (fst s') = nx"
    using calc_force_next [of "fst pr" "snd pr" c g s s'] by simp
qed

lemma realises_next:
  assumes "realises nx c g f prs" and "map p_next (fst s) = nx" and "f s = Some s'"
  shows "map p_next (fst s') = nx"
proof -
  have "ofold (\<lambda>pr. dvs_calc_force (fst pr) (snd pr) c g) prs s = Some s'"
    using assms(1) [unfolded realises_def, rule_format, OF assms(2)] assms(3) by simp
  then show ?thesis
    using assms(2) by (rule ofold_kernel_next)
qed

lemma realises_ofold:
  assumes "\<And>x. x \<in> set xs \<Longrightarrow> realises nx c g (f x) (h x)"
  shows "realises nx c g (ofold f xs) (concat (map h xs))"
  using assms
proof (induction xs)
  case Nil
  then show ?case by (simp add: realises_def)
next
  case (Cons x xs)
  have IH: "realises nx c g (ofold f xs) (concat (map h xs))"
    using Cons.prems by (intro Cons.IH) simp
  have x: "realises nx c g (f x) (h x)"
    using Cons.prems by simp
  show ?case
    unfolding realises_def
  proof (intro allI impI)
    fix s :: state
    assume s: "map p_next (fst s) = nx"
    show "ofold f (x # xs) s =
          ofold (\<lambda>pr. dvs_calc_force (fst pr) (snd pr) c g) (concat (map h (x # xs))) s"
    proof (cases "f x s")
      case None
      moreover have "f x s = ofold (\<lambda>pr. dvs_calc_force (fst pr) (snd pr) c g) (h x) s"
        using x [unfolded realises_def, rule_format, OF s] .
      ultimately show ?thesis
        by (simp add: ofold_append)
    next
      case (Some s1)
      have "map p_next (fst s1) = nx"
        using realises_next [OF x s Some] .
      then have "ofold f xs s1 =
          ofold (\<lambda>pr. dvs_calc_force (fst pr) (snd pr) c g) (concat (map h xs)) s1"
        by (rule IH [unfolded realises_def, rule_format])
      moreover have "ofold (\<lambda>pr. dvs_calc_force (fst pr) (snd pr) c g) (h x) s = Some s1"
        using x [unfolded realises_def, rule_format, OF s] Some by simp
      ultimately show ?thesis
        using Some by (simp add: ofold_append)
    qed
  qed
qed

lemma realises_for_loop:
  assumes "\<And>x. i \<le> x \<Longrightarrow> x < n \<Longrightarrow> realises nx c g (f x) (h x)"
  shows "realises nx c g (for_loop i n f) (concat (map h [i..n - 1]))"
proof -
  have "for_loop i n f = ofold f [i..n - 1]"
    by (intro ext) (rule for_loop_ofold)
  moreover have "realises nx c g (ofold f [i..n - 1]) (concat (map h [i..n - 1]))"
    using assms by (intro realises_ofold) simp
  ultimately show ?thesis by simp
qed

lemma inner_loop:
  assumes "chain nx h ys"
  shows "realises nx c g (for_linked fst (\<lambda>j. dvs_calc_force i j c g) h) (map (Pair i) ys)"
  unfolding realises_def
proof (intro allI impI)
  fix s :: state
  assume s: "map p_next (fst s) = nx"
  have "for_linked fst (\<lambda>j. dvs_calc_force i j c g) h s = ofold (\<lambda>j. dvs_calc_force i j c g) ys s"
  proof (rule for_linked_chain [where arr = fst and nx = nx, OF assms s])
    fix j s s'
    assume "map p_next (fst s) = nx" "dvs_calc_force i j c g s = Some s'"
    then show "map p_next (fst s') = nx"
      using calc_force_next by simp
  qed
  then show "for_linked fst (\<lambda>j. dvs_calc_force i j c g) h s =
        ofold (\<lambda>pr. dvs_calc_force (fst pr) (snd pr) c g) (map (Pair i) ys) s"
    by (simp add: ofold_map)
qed

lemma realises_for_linked:
  assumes "chain nx h xs" and "\<And>x. x \<in> set xs \<Longrightarrow> realises nx c g (f x) (k x)"
  shows "realises nx c g (for_linked fst f h) (concat (map k xs))"
proof -
  have "for_linked fst f h s = ofold f xs s" if "map p_next (fst s) = nx" for s
  proof (rule for_linked_chain [where arr = fst and nx = nx, OF assms(1) that])
    fix x s s'
    assume "x \<in> set xs" "map p_next (fst s) = nx" "f x s = Some s'"
    then show "map p_next (fst s') = nx"
      using realises_next [OF assms(2)] by blast
  qed
  with realises_ofold [of xs nx c g f k, OF assms(2)] show ?thesis
    by (simp add: realises_def)
qed

lemma two_cell_pairs_realises:
  assumes "chain nx h xs" and "chain nx h' ys"
  shows "realises nx c g (two_cell_pairs c g h h') (List.product xs ys)"
proof -
  have "realises nx c g (for_linked fst (\<lambda>i. for_linked fst (\<lambda>j. dvs_calc_force i j c g) h') h)
          (concat (map (\<lambda>i. map (Pair i) ys) xs))"
    by (intro realises_for_linked [OF assms(1)] inner_loop assms(2))
  moreover have "two_cell_pairs c g h h' =
      for_linked fst (\<lambda>i. for_linked fst (\<lambda>j. dvs_calc_force i j c g) h') h"
    by (intro ext) (simp add: two_cell_pairs_def)
  ultimately show ?thesis
    by (simp add: product_concat_map)
qed

lemma chain_length: "chain nx h xs \<Longrightarrow> \<forall>x \<in> set xs. 0 \<le> x \<and> x < int (length nx)"
  by (induction xs arbitrary: h) auto

lemma chain_Nil_iff: "chain nx h xs \<Longrightarrow> h = - 1 \<longleftrightarrow> xs = []"
  by (cases xs) auto

lemma same_cell_pairs_realises:
  assumes "chain nx h xs"
  shows "realises nx c g (same_cell_pairs c g h) (own_pairs xs)"
proof -
  define body where "body = (\<lambda>i (s :: state). case rd (fst s) i of None \<Rightarrow> None
              | Some p \<Rightarrow> for_linked fst (\<lambda>j. dvs_calc_force i j c g) (p_next p) s)"
  have unf: "same_cell_pairs c g h = for_linked fst body h" for h
    by (intro ext) (simp add: same_cell_pairs_def body_def)
  have "for_linked fst body h s = ofold (\<lambda>pr. dvs_calc_force (fst pr) (snd pr) c g) (own_pairs xs) s"
    if "chain nx h xs" "map p_next (fst s) = nx" for h s
    using that
  proof (induction xs arbitrary: h s)
    case Nil
    then show ?case by (subst for_linked.simps) simp
  next
    case (Cons x xs)
    from Cons.prems(1) have hx: "h = x" "0 \<le> x" "x < int (length nx)"
      and ch: "chain nx (nx ! nat x) xs"
      by simp_all
    have len: "length (fst s) = length nx"
      using Cons.prems(2) by (metis length_map)
    have "nat x < length (fst s)"
      using hx len by simp
    then have "map p_next (fst s) ! nat x = p_next (fst s ! nat x)"
      by (rule nth_map)
    then have nxt: "p_next (fst s ! nat x) = nx ! nat x"
      by (simp only: Cons.prems(2))
    have "body x s = for_linked fst (\<lambda>j. dvs_calc_force x j c g) (nx ! nat x) s"
      using hx len nxt by (simp add: body_def rd_def)
    also have "\<dots> = ofold (\<lambda>pr. dvs_calc_force (fst pr) (snd pr) c g) (map (Pair x) xs) s"
      using inner_loop [OF ch, of c g x] Cons.prems(2) unfolding realises_def by blast
    finally have b: "body x s = ofold (\<lambda>pr. dvs_calc_force (fst pr) (snd pr) c g) (map (Pair x) xs) s" .
    show ?case
    proof (cases "body x s")
      case None
      then show ?thesis
        using hx b by (subst for_linked.simps) (simp add: ofold_append)
    next
      case (Some s')
      have nx': "map p_next (fst s') = nx"
        using ofold_kernel_next [OF _ Cons.prems(2)] b Some by simp
      then have len': "length (fst s') = length nx"
        by (metis length_map)
      have "nat x < length (fst s')"
        using hx len' by simp
      then have "map p_next (fst s') ! nat x = p_next (fst s' ! nat x)"
        by (rule nth_map)
      then have nxt': "p_next (fst s' ! nat x) = nx ! nat x"
        by (simp only: nx')
      have "for_linked fst body (nx ! nat x) s' =
            ofold (\<lambda>pr. dvs_calc_force (fst pr) (snd pr) c g) (own_pairs xs) s'"
        by (rule Cons.IH [OF ch nx'])
      moreover have "ofold (\<lambda>pr. dvs_calc_force (fst pr) (snd pr) c g) (map (Pair x) xs) s = Some s'"
        using b Some by simp
      ultimately show ?thesis
        using hx Some len' nxt'
        by (subst for_linked.simps) (simp add: rd_def ofold_append)
    qed
  qed
  then show ?thesis
    unfolding realises_def unf using assms by blast
qed

lemma realises_skip: "realises nx c g Some []"
  by (simp add: realises_def)

lemma realises_eq: "realises nx c g f prs \<Longrightarrow> f' = f \<Longrightarrow> prs' = prs \<Longrightarrow> realises nx c g f' prs'"
  by simp

lemma neighbour_cell_realises:
  assumes lk: "linked cs nx b" and L: "binning cs = L"
    and t: "0 \<le> this_cell" "this_cell < int (length (cells cs))"
    and o: "0 \<le> nnx + nny * L + nnz * (L * L)"
      "nnx + nny * L + nnz * (L * L) < int (length (cells cs))"
  shows "realises nx c g (neighbour_cell cs c g this_cell nnx nny nnz)
           (neighbour_pairs L b this_cell nnx nny nnz)"
proof -
  define other_cell where "other_cell = nnx + nny * L + nnz * (L * L)"
  have cht: "chain nx (cells cs ! nat this_cell) (b this_cell)"
    using lk t by (simp add: linked_def)
  have cho: "chain nx (cells cs ! nat other_cell) (b other_cell)"
    using lk o by (simp add: linked_def other_cell_def)
  consider "this_cell > other_cell" | "this_cell = other_cell" | "this_cell < other_cell"
    by linarith
  then show ?thesis
  proof cases
    case 1
    then show ?thesis
      by (intro realises_eq [OF realises_skip])
        (auto simp: neighbour_cell_def neighbour_pairs_def Let_def L other_cell_def)
  next
    case 2
    then show ?thesis
      using t
      by (intro realises_eq [OF same_cell_pairs_realises [OF cht]])
        (auto simp: neighbour_cell_def neighbour_pairs_def Let_def L other_cell_def rd_def)
  next
    case 3
    then show ?thesis
      using t o
      by (intro realises_eq [OF two_cell_pairs_realises [OF cht cho]])
        (auto simp: neighbour_cell_def neighbour_pairs_def Let_def L other_cell_def rd_def)
  qed
qed

lemma encode_range':
  fixes L :: int
  assumes "0 \<le> x" "x < L" "0 \<le> y" "y < L" "0 \<le> z" "z < L"
  shows "0 \<le> x + L * y + L * L * z" "x + L * y + L * L * z < L * L * L"
  using encode_range [OF assms] by (simp_all add: mult.commute)

lemma main_cell_realises:
  assumes lk: "linked cs nx b" and L: "binning cs = L"
    and len: "int (length (cells cs)) = L * L * L"
    and xyz: "0 \<le> x" "x < L" "0 \<le> y" "y < L" "0 \<le> z" "z < L"
  shows "realises nx c g (main_cell cs cell0 cell1 c g x y z)
           (main_cell_pairs L b cell0 cell1 x y z)"
proof -
  define this_cell where "this_cell = x + L * y + L * L * z"
  have t: "0 \<le> this_cell" "this_cell < int (length (cells cs))"
    unfolding this_cell_def len using encode_range' [OF xyz] by simp_all
  have cht: "chain nx (cells cs ! nat this_cell) (b this_cell)"
    using lk t by (simp add: linked_def)
  have empty: "cells cs ! nat this_cell = - 1 \<longleftrightarrow> b this_cell = []"
    by (rule chain_Nil_iff [OF cht])
  have nb: "realises nx c g (neighbour_cell cs c g this_cell nnx nny nnz)
           (neighbour_pairs L b this_cell nnx nny nnz)"
    if "max 0 (x - 1) \<le> nnx" "nnx < min L (x + 2)" "max 0 (y - 1) \<le> nny" "nny < min L (y + 2)"
      "max 0 (z - 1) \<le> nnz" "nnz < min L (z + 2)" for nnx nny nnz
  proof -
    have "0 \<le> nnx" "nnx < L" "0 \<le> nny" "nny < L" "0 \<le> nnz" "nnz < L"
      using that by simp_all
    from encode_range [OF this] show ?thesis
      by (intro neighbour_cell_realises [OF lk L t]) (simp_all add: len)
  qed
  show ?thesis
  proof (cases "b this_cell = [] \<or> this_cell < cell0 \<or> this_cell \<ge> cell1")
    case True
    then show ?thesis
      using t empty
      by (intro realises_eq [OF realises_skip])
        (auto simp: main_cell_def main_cell_pairs_def Let_def L this_cell_def [symmetric] rd_def)
  next
    case False
    have "realises nx c g
       (for_loop (max 0 (z - 1)) (min L (z + 2)) (\<lambda>nnz.
        for_loop (max 0 (y - 1)) (min L (y + 2)) (\<lambda>nny.
        for_loop (max 0 (x - 1)) (min L (x + 2)) (\<lambda>nnx.
          neighbour_cell cs c g this_cell nnx nny nnz))))
       (concat (map (\<lambda>nnz. concat (map (\<lambda>nny. concat (map (\<lambda>nnx.
          neighbour_pairs L b this_cell nnx nny nnz)
          [max 0 (x - 1)..min L (x + 2) - 1])) [max 0 (y - 1)..min L (y + 2) - 1]))
          [max 0 (z - 1)..min L (z + 2) - 1]))"
      by (intro realises_for_loop nb)
    moreover have "main_cell cs cell0 cell1 c g x y z =
        for_loop (max 0 (z - 1)) (min L (z + 2)) (\<lambda>nnz.
        for_loop (max 0 (y - 1)) (min L (y + 2)) (\<lambda>nny.
        for_loop (max 0 (x - 1)) (min L (x + 2)) (\<lambda>nnx.
          neighbour_cell cs c g this_cell nnx nny nnz)))"
      using False t empty
      by (intro ext) (simp add: main_cell_def Let_def L this_cell_def [symmetric] rd_def)
    moreover have "main_cell_pairs L b cell0 cell1 x y z =
        concat (map (\<lambda>nnz. concat (map (\<lambda>nny. concat (map (\<lambda>nnx.
          neighbour_pairs L b this_cell nnx nny nnz)
          [max 0 (x - 1)..min L (x + 2) - 1])) [max 0 (y - 1)..min L (y + 2) - 1]))
          [max 0 (z - 1)..min L (z + 2) - 1])"
      using False by (simp add: main_cell_pairs_def Let_def this_cell_def [symmetric])
    ultimately show ?thesis
      by simp
  qed
qed

lemma calc_forces_realises:
  assumes lk: "linked cs nx b" and L: "binning cs = L"
    and len: "int (length (cells cs)) = L * L * L"
  shows "realises nx c g (dvs_calc_forces cs cell0 cell1 c g) (cell_pairs L b cell0 cell1)"
proof -
  have "realises nx c g
     (for_loop 0 L (\<lambda>z. for_loop 0 L (\<lambda>y. for_loop 0 L (\<lambda>x.
        main_cell cs cell0 cell1 c g x y z))))
     (concat (map (\<lambda>z. concat (map (\<lambda>y. concat (map (\<lambda>x.
        main_cell_pairs L b cell0 cell1 x y z) [0..L - 1])) [0..L - 1])) [0..L - 1]))"
    by (intro realises_for_loop main_cell_realises [OF lk L len])
  then show ?thesis
    by (rule realises_eq) (auto simp: dvs_calc_forces_def cell_pairs_def Let_def L)
qed

lemma own_pairs_subset: "(i, j) \<in> set (own_pairs xs) \<Longrightarrow> i \<in> set xs \<and> j \<in> set xs"
  by (induction xs) auto

lemma own_pairs_neq: "distinct xs \<Longrightarrow> (i, j) \<in> set (own_pairs xs) \<Longrightarrow> i \<noteq> j"
  by (induction xs) (auto dest: own_pairs_subset)

lemma neighbour_pairs_mem:
  assumes "(i, j) \<in> set (neighbour_pairs L (bucket N ps cs) t nnx nny nnz)"
  shows "0 \<le> i \<and> i < N \<and> 0 \<le> j \<and> j < N \<and> i \<noteq> j \<and>
         cell_number cs (ps ! nat i) = t \<and>
         cell_number cs (ps ! nat j) = nnx + nny * L + nnz * (L * L)"
proof (cases "t = nnx + nny * L + nnz * (L * L)")
  case True
  with assms have m: "(i, j) \<in> set (own_pairs (bucket N ps cs t))"
    by (simp add: neighbour_pairs_def)
  from own_pairs_subset [OF m] own_pairs_neq [OF distinct_bucket m] True show ?thesis
    by (simp add: set_bucket)
next
  case False
  with assms have "i \<in> set (bucket N ps cs t)"
    "j \<in> set (bucket N ps cs (nnx + nny * L + nnz * (L * L)))"
    by (auto simp: neighbour_pairs_def Let_def split: if_splits)
  with False show ?thesis
    by (auto simp: set_bucket)
qed

lemma main_cell_pairs_mem:
  assumes "(i, j) \<in> set (main_cell_pairs L (bucket N ps cs) c0 c1 x y z)"
  shows "\<exists>nnz \<in> {max 0 (z - 1)..min L (z + 2) - 1}.
         \<exists>nny \<in> {max 0 (y - 1)..min L (y + 2) - 1}.
         \<exists>nnx \<in> {max 0 (x - 1)..min L (x + 2) - 1}.
           c0 \<le> x + L * y + L * L * z \<and> x + L * y + L * L * z < c1 \<and>
           (i, j) \<in> set (neighbour_pairs L (bucket N ps cs) (x + L * y + L * L * z) nnx nny nnz)"
proof -
  let ?t = "x + L * y + L * L * z"
  from assms have c: "c0 \<le> ?t" "?t < c1"
    by (simp_all add: main_cell_pairs_def Let_def split: if_splits)
  from assms have "(i, j) \<in> set (concat (map (\<lambda>nnz. concat (map (\<lambda>nny. concat (map (\<lambda>nnx.
          neighbour_pairs L (bucket N ps cs) ?t nnx nny nnz)
          [max 0 (x - 1)..min L (x + 2) - 1])) [max 0 (y - 1)..min L (y + 2) - 1]))
          [max 0 (z - 1)..min L (z + 2) - 1]))"
    by (simp add: main_cell_pairs_def Let_def split: if_splits)
  then obtain nnz nny nnx where
    "nnz \<in> {max 0 (z - 1)..min L (z + 2) - 1}"
    "nny \<in> {max 0 (y - 1)..min L (y + 2) - 1}"
    "nnx \<in> {max 0 (x - 1)..min L (x + 2) - 1}"
    "(i, j) \<in> set (neighbour_pairs L (bucket N ps cs) ?t nnx nny nnz)"
    by auto
  with c show ?thesis
    by blast
qed

lemma cell_pairs_mem:
  assumes "(i, j) \<in> set (cell_pairs L (bucket N ps cs) c0 c1)"
  shows "\<exists>z \<in> {0..L - 1}. \<exists>y \<in> {0..L - 1}. \<exists>x \<in> {0..L - 1}.
           (i, j) \<in> set (main_cell_pairs L (bucket N ps cs) c0 c1 x y z)"
proof -
  from assms obtain z y x where
    "z \<in> {0..L - 1}" "y \<in> {0..L - 1}" "x \<in> {0..L - 1}"
    "(i, j) \<in> set (main_cell_pairs L (bucket N ps cs) c0 c1 x y z)"
    by (auto simp: cell_pairs_def)
  then show ?thesis
    by blast
qed

lemma cell_pairs_valid:
  assumes "N \<le> int (length ps')"
  shows "\<forall>pr \<in> set (cell_pairs L (bucket N ps cs) c0 c1). valid_pair ps' pr"
proof
  fix pr assume pr: "pr \<in> set (cell_pairs L (bucket N ps cs) c0 c1)"
  obtain i j where ij: "pr = (i, j)" by (cases pr)
  from cell_pairs_mem [OF pr [unfolded ij]]
  obtain x y z where "(i, j) \<in> set (main_cell_pairs L (bucket N ps cs) c0 c1 x y z)"
    by blast
  from main_cell_pairs_mem [OF this]
  obtain t nnx nny nnz where "(i, j) \<in> set (neighbour_pairs L (bucket N ps cs) t nnx nny nnz)"
    by blast
  from neighbour_pairs_mem [OF this] assms show "valid_pair ps' pr"
    by (simp add: valid_pair_def ij)
qed

lemma mset_concat_map_add:
  assumes "\<And>x. x \<in> set xs \<Longrightarrow> mset (f x) = mset (g x) + mset (h x)"
  shows "mset (concat (map f xs)) = mset (concat (map g xs)) + mset (concat (map h xs))"
  using assms by (induction xs) simp_all

lemma main_cell_pairs_split:
  assumes "c0 \<le> c1" "c1 \<le> c2"
  shows "mset (main_cell_pairs L b c0 c2 x y z) =
         mset (main_cell_pairs L b c0 c1 x y z) + mset (main_cell_pairs L b c1 c2 x y z)"
  using assms by (simp add: main_cell_pairs_def Let_def)

lemma cell_pairs_split:
  assumes "c0 \<le> c1" "c1 \<le> c2"
  shows "mset (cell_pairs L b c0 c2) = mset (cell_pairs L b c0 c1) + mset (cell_pairs L b c1 c2)"
  unfolding cell_pairs_def
  by (intro mset_concat_map_add main_cell_pairs_split assms)

lemma vsum_mset: "mset vs = mset ws \<Longrightarrow> vsum vs = vsum ws"
proof -
  assume "mset vs = mset ws"
  then have "mset (map f vs) = mset (map f ws)" for f :: "vec \<Rightarrow> real"
    by simp
  then have "sum_mset (mset (map f vs)) = sum_mset (mset (map f ws))" for f :: "vec \<Rightarrow> real"
    by (simp only:)
  then have "sum_list (map f vs) = sum_list (map f ws)" for f :: "vec \<Rightarrow> real"
    by (simp only: sum_mset_sum_list)
  then show ?thesis by (simp add: vsum_def)
qed

lemma add_forces_mset:
  assumes "mset prs = mset prs'"
  shows "add_forces c g ps0 prs ps = add_forces c g ps0 prs' ps"
proof -
  have "vsum (map F prs) = vsum (map F prs')" for F :: "int \<times> int \<Rightarrow> vec"
    using assms by (intro vsum_mset) simp
  then show ?thesis by (simp add: add_forces_def)
qed

section \<open>Partitioned sweeps\<close>

lemma bucket_nat: "bucket (int (nat N)) ps cs c = bucket N ps cs c"
  by (cases "0 \<le> N") (simp_all add: bucket_def)

lemma populate_cells_linked:
  assumes ok: "Cells_ok cs0" and N: "N \<le> int (length ps0)"
    and pop: "dvs_populate_cells N ps0 cs0 = Some (ps, cs)"
  shows "length ps = length ps0"
    and "binning cs = binning cs0"
    and "dr cs = dr cs0"
    and "num_cells cs = num_cells cs0"
    and "int (length (cells cs)) = binning cs0 * binning cs0 * binning cs0"
    and "linked cs (map p_next ps) (bucket N ps0 cs0)"
    and "\<forall>k < length ps0. p_r (ps ! k) = p_r (ps0 ! k) \<and> p_v (ps ! k) = p_v (ps0 ! k) \<and>
           p_a (ps ! k) = p_a (ps0 ! k)"
proof -
  from populate_cells_populated [OF ok N] pop
  have p: "populated (nat N) ps0 cs0 (ps, cs)" by simp
  then obtain c' where cs: "cs = cs0\<lparr>cells := c'\<rparr>" and lc: "length c' = length (cells cs0)"
    and ch: "\<forall>c. 0 \<le> c \<and> c < num_cells cs0 \<longrightarrow>
               chain (map p_next ps) (c' ! nat c) (bucket N ps0 cs0 c)"
    unfolding populated_def bucket_nat by auto
  have nc: "num_cells cs0 = int (length (cells cs0))"
    "num_cells cs0 = binning cs0 * binning cs0 * binning cs0"
    using ok by (simp_all add: Cells_ok_def)
  show "length ps = length ps0"
    using p by (simp add: populated_def)
  show "binning cs = binning cs0" "dr cs = dr cs0" "num_cells cs = num_cells cs0"
    by (simp_all add: cs)
  show "int (length (cells cs)) = binning cs0 * binning cs0 * binning cs0"
    using nc lc by (simp add: cs)
  show "linked cs (map p_next ps) (bucket N ps0 cs0)"
    using ch nc lc by (simp add: linked_def cs)
  show "\<forall>k < length ps0. p_r (ps ! k) = p_r (ps0 ! k) \<and> p_v (ps ! k) = p_v (ps0 ! k) \<and>
           p_a (ps ! k) = p_a (ps0 ! k)"
    using p by (simp add: populated_def)
qed

lemma same_rv_refl: "same_rv ps ps"
  by (simp add: same_rv_def)

lemma calc_forces_closed:
  assumes ok: "Cells_ok cs0" and N: "N \<le> int (length ps0)"
    and pop: "dvs_populate_cells N ps0 cs0 = Some (ps, cs)"
  shows "dvs_calc_forces cs c0 c1 rc g (ps, st) =
           Some (add_forces rc g ps (cell_pairs (binning cs0) (bucket N ps0 cs0) c0 c1) ps,
                 add_stats rc ps (cell_pairs (binning cs0) (bucket N ps0 cs0) c0 c1) st)"
proof -
  note l = populate_cells_linked [OF assms]
  have "realises (map p_next ps) rc g (dvs_calc_forces cs c0 c1 rc g)
          (cell_pairs (binning cs0) (bucket N ps0 cs0) c0 c1)"
    by (rule calc_forces_realises [OF l(6) l(2) l(5)])
  then have "dvs_calc_forces cs c0 c1 rc g (ps, st) =
      ofold (\<lambda>pr. dvs_calc_force (fst pr) (snd pr) rc g)
        (cell_pairs (binning cs0) (bucket N ps0 cs0) c0 c1) (ps, st)"
    unfolding realises_def by simp
  also have "\<dots> = Some (add_forces rc g ps (cell_pairs (binning cs0) (bucket N ps0 cs0) c0 c1) ps,
                 add_stats rc ps (cell_pairs (binning cs0) (bucket N ps0 cs0) c0 c1) st)"
    using N l(1) by (intro ofold_kernel cell_pairs_valid same_rv_refl) simp
  finally show ?thesis .
qed

lemma add_forces_Nil: "add_forces c g ps0 [] ps = ps"
  by (intro nth_equalityI) (simp_all add: add_forces_def vsum_Nil vec_inc_zero)

lemma collect_add_forces:
  assumes zero: "\<forall>k < length ps. p_a (ps ! k) = VEC_ZERO" and N: "N = int (length ps)"
  shows "dvs_collect_forces N (add_forces c g ps Q ps) (add_forces c g ps R ps) =
           Some (add_forces c g ps (Q @ R) ps, add_forces c g ps R ps)"
proof -
  have "map2 (\<lambda>p q. p\<lparr>p_a := vec_inc (p_a p) (p_a q)\<rparr>) (add_forces c g ps Q ps)
          (add_forces c g ps R ps) = add_forces c g ps (Q @ R) ps"
    using zero
    by (intro nth_equalityI)
      (simp_all add: add_forces_def vsum_append vec_inc_def VEC_ZERO_def)
  then show ?thesis
    using collect_forces_eq [of N "add_forces c g ps Q ps" "add_forces c g ps R ps"] N
    by (simp add: add_forces_length)
qed

lemma cell_pairs_empty_range: "cell_pairs L b c c = []"
  by (simp add: cell_pairs_def main_cell_pairs_def Let_def not_less)

lemma sum_partitions_closed:
  assumes ok: "Cells_ok cs0" and N: "N = int (length ps0)"
    and pop: "dvs_populate_cells N ps0 cs0 = Some (ps, cs)"
    and zero: "\<forall>k < length ps. p_a (ps ! k) = VEC_ZERO"
  shows "sorted (c # cuts) \<Longrightarrow>
         \<exists>Q'. sum_partitions N cs rc g ps st (c # cuts) (add_forces rc g ps Q ps) =
                 Some (add_forces rc g ps Q' ps) \<and>
               mset Q' = mset Q +
                 mset (cell_pairs (binning cs0) (bucket N ps0 cs0) c (last (c # cuts)))"
proof (induction cuts arbitrary: c Q)
  case Nil
  have "sum_partitions N cs rc g ps st [c] (add_forces rc g ps Q ps) =
          Some (add_forces rc g ps Q ps) \<and>
        mset Q = mset Q + mset (cell_pairs (binning cs0) (bucket N ps0 cs0) c (last [c]))"
    by (simp add: cell_pairs_empty_range)
  then show ?case by blast
next
  case (Cons c1 cuts)
  let ?P = "cell_pairs (binning cs0) (bucket N ps0 cs0)"
  have N': "N \<le> int (length ps0)" "N = int (length ps)"
    using N populate_cells_linked(1) [OF ok _ pop] by simp_all
  have part: "dvs_calc_forces cs c c1 rc g (ps, st) =
           Some (add_forces rc g ps (?P c c1) ps, add_stats rc ps (?P c c1) st)"
    by (rule calc_forces_closed [OF ok N'(1) pop])
  have coll: "dvs_collect_forces N (add_forces rc g ps Q ps) (add_forces rc g ps (?P c c1) ps) =
           Some (add_forces rc g ps (Q @ ?P c c1) ps, add_forces rc g ps (?P c c1) ps)"
    by (rule collect_add_forces [OF zero N'(2)])
  from Cons.prems have s: "sorted (c1 # cuts)" and le: "c \<le> c1" "c1 \<le> last (c1 # cuts)"
    by auto
  from Cons.IH [OF s, of "Q @ ?P c c1"] obtain Q' where
    Q': "sum_partitions N cs rc g ps st (c1 # cuts) (add_forces rc g ps (Q @ ?P c c1) ps) =
           Some (add_forces rc g ps Q' ps)"
    "mset Q' = mset (Q @ ?P c c1) + mset (?P c1 (last (c1 # cuts)))"
    by blast
  have "mset Q' = mset Q + mset (?P c (last (c # c1 # cuts)))"
    using Q'(2) cell_pairs_split [OF le, of "binning cs0" "bucket N ps0 cs0"] by simp
  moreover have "sum_partitions N cs rc g ps st (c # c1 # cuts) (add_forces rc g ps Q ps) =
      Some (add_forces rc g ps Q' ps)"
    using part coll Q'(1) by simp
  ultimately show ?case by blast
qed

text \<open>
  Partitioned sweeps in exact arithmetic. Let the grid be populated from \<open>N\<close> particles
  with zero accelerations, and let the cut points \<open>0 = c\<^sub>0 \<le> c\<^sub>1 \<le> \<dots> \<le> c\<^sub>m = L\<^sup>3\<close> split
  the cells into consecutive half-open ranges. One \<open>dvs_calc_forces\<close> per range, each on
  its own copy of the array, with the results added up by \<open>dvs_collect_forces\<close>, returns
  the same array as one \<open>dvs_calc_forces\<close> over \<open>[0, L\<^sup>3)\<close>. The proof reorders the sum of
  the forces on each particle, which addition of reals allows and addition of doubles
  does not: the statement is about real arithmetic only and says nothing about the bits
  of the doubles that the C code computes.
\<close>

theorem partition_sum:
  assumes "Cells_ok cs0" and "N = int (length ps0)"
    and "dvs_populate_cells N ps0 cs0 = Some (ps, cs)"
    and "\<forall>k < length ps0. p_a (ps0 ! k) = VEC_ZERO"
    and "sorted cuts" and "cuts \<noteq> []" and "hd cuts = 0" and "last cuts = num_cells cs"
  shows "\<exists>full st'. dvs_calc_forces cs 0 (num_cells cs) rc g (ps, st) = Some (full, st') \<and>
           sum_partitions N cs rc g ps st cuts ps = Some full"
proof -
  let ?P = "cell_pairs (binning cs0) (bucket N ps0 cs0)"
  have N': "N \<le> int (length ps0)"
    using assms(2) by simp
  note l = populate_cells_linked [OF assms(1) N' assms(3)]
  have zero: "\<forall>k < length ps. p_a (ps ! k) = VEC_ZERO"
    using assms(4) l(1) l(7) by simp
  obtain c cuts' where cuts: "cuts = c # cuts'"
    using assms(6) by (cases cuts) auto
  have c: "c = 0" using assms(7) cuts by simp
  from sum_partitions_closed [OF assms(1-3) zero, of c cuts' rc g st "[]"] assms(5)
  obtain Q' where Q': "sum_partitions N cs rc g ps st cuts ps = Some (add_forces rc g ps Q' ps)"
    "mset Q' = mset (?P 0 (num_cells cs))"
    using assms(8) by (auto simp: cuts c add_forces_Nil)
  have "dvs_calc_forces cs 0 (num_cells cs) rc g (ps, st) =
          Some (add_forces rc g ps (?P 0 (num_cells cs)) ps,
                add_stats rc ps (?P 0 (num_cells cs)) st)"
    by (rule calc_forces_closed [OF assms(1) N' assms(3)])
  moreover have "add_forces rc g ps Q' ps = add_forces rc g ps (?P 0 (num_cells cs)) ps"
    by (rule add_forces_mset [OF Q'(2)])
  ultimately show ?thesis
    using Q'(1) by simp
qed

section \<open>The pairs of the cell sweep\<close>

lemma encode_inj:
  fixes L :: int
  assumes "0 \<le> x" "x < L" "0 \<le> y" "y < L" "0 \<le> x'" "x' < L" "0 \<le> y'" "y' < L"
    and eq: "x + y * L + z * (L * L) = x' + y' * L + z' * (L * L)"
  shows "x = x' \<and> y = y' \<and> z = z'"
proof -
  have L: "0 < L" using assms by simp
  have e: "x + L * (y + L * z) = x' + L * (y' + L * z')"
    using eq by (simp add: algebra_simps)
  have "(x + L * (y + L * z)) mod L = x" "(x' + L * (y' + L * z')) mod L = x'"
    using assms by simp_all
  with e have x: "x = x'" by simp
  have "(x + L * (y + L * z)) div L = y + L * z" "(x' + L * (y' + L * z')) div L = y' + L * z'"
    using assms L by simp_all
  with e have e2: "y + L * z = y' + L * z'" by simp
  have "(y + L * z) mod L = y" "(y' + L * z') mod L = y'"
    using assms by simp_all
  with e2 have y: "y = y'" by simp
  have "(y + L * z) div L = z" "(y' + L * z') div L = z'"
    using assms L by simp_all
  with e2 have "z = z'" by simp
  with x y show ?thesis by simp
qed

lemma cell_number_bins:
  "cell_number cs p = (case bins cs p of (bx, by, bz) \<Rightarrow>
     bx + by * binning cs + bz * (binning cs * binning cs))"
  by (simp add: cell_number_def bins_def Let_def)

lemma bins_range:
  assumes "1 \<le> binning cs" and "bins cs p = (bx, by, bz)"
  shows "0 \<le> bx" "bx < binning cs" "0 \<le> by" "by < binning cs" "0 \<le> bz" "bz < binning cs"
  using assms bin_index_range [OF assms(1)] by (auto simp: bins_def)

lemma cell_number_decode:
  assumes L: "1 \<le> binning cs"
    and r: "0 \<le> x" "x < binning cs" "0 \<le> y" "y < binning cs" "0 \<le> z" "z < binning cs"
    and eq: "cell_number cs p = x + y * binning cs + z * (binning cs * binning cs)"
  shows "bins cs p = (x, y, z)"
proof -
  obtain bx "by" bz where b: "bins cs p = (bx, by, bz)"
    by (cases "bins cs p") auto
  note br = bins_range [OF L b]
  from eq have "bx + by * binning cs + bz * (binning cs * binning cs) =
      x + y * binning cs + z * (binning cs * binning cs)"
    by (simp add: cell_number_bins b)
  from encode_inj [OF br(1-4) r(1-4) this] show ?thesis
    by (simp add: b)
qed

lemma sorted_bucket: "sorted_wrt (>) (bucket N ps cs c)"
proof -
  have "sorted_wrt (<) (filter (\<lambda>i. cell_number cs (ps ! nat i) = c) [0..N - 1])"
    by (intro sorted_wrt_filter) (simp add: sorted_wrt_upto)
  then show ?thesis
    by (simp add: bucket_def sorted_wrt_rev)
qed

lemma own_pairs_sorted:
  "sorted_wrt (>) xs \<Longrightarrow> (i, j) \<in> set (own_pairs xs) \<longleftrightarrow> i \<in> set xs \<and> j \<in> set xs \<and> j < i"
  by (induction xs) (auto dest: own_pairs_subset)

lemma distinct_own_pairs: "distinct xs \<Longrightarrow> distinct (own_pairs xs)"
  by (induction xs) (auto simp: distinct_map inj_on_def dest: own_pairs_subset)

lemma distinct_neighbour_pairs: "distinct (neighbour_pairs L (bucket N ps cs) t nnx nny nnz)"
  by (simp add: neighbour_pairs_def Let_def distinct_own_pairs distinct_bucket distinct_product)

lemma neighbour_pairs_order:
  assumes "(i, j) \<in> set (neighbour_pairs L (bucket N ps cs) t nnx nny nnz)"
  shows "cell_number cs (ps ! nat i) \<le> cell_number cs (ps ! nat j) \<and>
         (cell_number cs (ps ! nat i) = cell_number cs (ps ! nat j) \<longrightarrow> j < i)"
proof -
  note m = neighbour_pairs_mem [OF assms]
  show ?thesis
  proof (cases "t = nnx + nny * L + nnz * (L * L)")
    case True
    with assms have "(i, j) \<in> set (own_pairs (bucket N ps cs t))"
      by (simp add: neighbour_pairs_def)
    then have "j < i"
      by (simp add: own_pairs_sorted [OF sorted_bucket])
    with m True show ?thesis by simp
  next
    case False
    with assms have "t < nnx + nny * L + nnz * (L * L)"
      by (auto simp: neighbour_pairs_def Let_def split: if_splits)
    with m show ?thesis by simp
  qed
qed

lemma neighbour_pairs_bins:
  assumes L: "1 \<le> binning cs"
    and m: "pr \<in> set (neighbour_pairs (binning cs) (bucket N ps cs) t nnx nny nnz)"
    and r: "0 \<le> nnx" "nnx < binning cs" "0 \<le> nny" "nny < binning cs"
      "0 \<le> nnz" "nnz < binning cs"
  shows "bins cs (ps ! nat (snd pr)) = (nnx, nny, nnz)"
proof -
  obtain i j where pr: "pr = (i, j)" by (cases pr)
  from neighbour_pairs_mem [OF m [unfolded pr]]
  have "cell_number cs (ps ! nat j) = nnx + nny * binning cs + nnz * (binning cs * binning cs)"
    by simp
  from cell_number_decode [OF L r this] show ?thesis
    by (simp add: pr)
qed

lemma neighbour_range:
  fixes L :: int
  assumes "nn \<in> set [max 0 (x - 1)..min L (x + 2) - 1]"
  shows "0 \<le> nn" "nn < L" "x - 1 \<le> nn" "nn \<le> x + 1"
  using assms by simp_all

lemma distinct_main_cell_pairs:
  assumes L: "1 \<le> binning cs"
  shows "distinct (main_cell_pairs (binning cs) (bucket N ps cs) c0 c1 x y z)"
proof -
  let ?L = "binning cs"
  let ?t = "x + ?L * y + ?L * ?L * z"
  let ?NP = "neighbour_pairs ?L (bucket N ps cs) ?t"
  let ?Xs = "[max 0 (x - 1)..min ?L (x + 2) - 1]"
  let ?Ys = "[max 0 (y - 1)..min ?L (y + 2) - 1]"
  let ?Zs = "[max 0 (z - 1)..min ?L (z + 2) - 1]"
  let ?jb = "\<lambda>pr. bins cs (ps ! nat (snd pr))"
  have b: "?jb pr = (nnx, nny, nnz)"
    if "pr \<in> set (?NP nnx nny nnz)" "nnx \<in> set ?Xs" "nny \<in> set ?Ys" "nnz \<in> set ?Zs"
    for pr nnx nny nnz
    using neighbour_range [OF that(2)] neighbour_range [OF that(3)] neighbour_range [OF that(4)]
    by (intro neighbour_pairs_bins [OF L that(1)])
  have d1: "distinct (concat (map (\<lambda>nnx. ?NP nnx nny nnz) ?Xs))"
    if "nny \<in> set ?Ys" "nnz \<in> set ?Zs" for nny nnz
  proof (rule distinct_concat_keyed [where key = "\<lambda>pr. fst (?jb pr)"])
    show "distinct ?Xs" by simp
    show "distinct (?NP nnx nny nnz)" for nnx by (rule distinct_neighbour_pairs)
    show "fst (?jb pr) = nnx" if "nnx \<in> set ?Xs" "pr \<in> set (?NP nnx nny nnz)" for nnx pr
      using b [OF that(2) that(1) \<open>nny \<in> set ?Ys\<close> \<open>nnz \<in> set ?Zs\<close>] by simp
  qed
  have d2: "distinct (concat (map (\<lambda>nny. concat (map (\<lambda>nnx. ?NP nnx nny nnz) ?Xs)) ?Ys))"
    if "nnz \<in> set ?Zs" for nnz
  proof (rule distinct_concat_keyed [where key = "\<lambda>pr. fst (snd (?jb pr))"])
    show "distinct ?Ys" by simp
    show "distinct (concat (map (\<lambda>nnx. ?NP nnx nny nnz) ?Xs))" if "nny \<in> set ?Ys" for nny
      by (rule d1 [OF that \<open>nnz \<in> set ?Zs\<close>])
    show "fst (snd (?jb pr)) = nny"
      if "nny \<in> set ?Ys" "pr \<in> set (concat (map (\<lambda>nnx. ?NP nnx nny nnz) ?Xs))" for nny pr
    proof -
      from that(2) obtain nnx where "nnx \<in> set ?Xs" "pr \<in> set (?NP nnx nny nnz)"
        by auto
      from b [OF this(2) this(1) that(1) \<open>nnz \<in> set ?Zs\<close>] show ?thesis by simp
    qed
  qed
  have d3: "distinct (concat (map (\<lambda>nnz. concat (map (\<lambda>nny.
              concat (map (\<lambda>nnx. ?NP nnx nny nnz) ?Xs)) ?Ys)) ?Zs))"
  proof (rule distinct_concat_keyed [where key = "\<lambda>pr. snd (snd (?jb pr))"])
    show "distinct ?Zs" by simp
    show "distinct (concat (map (\<lambda>nny. concat (map (\<lambda>nnx. ?NP nnx nny nnz) ?Xs)) ?Ys))"
      if "nnz \<in> set ?Zs" for nnz
      by (rule d2 [OF that])
    show "snd (snd (?jb pr)) = nnz"
      if "nnz \<in> set ?Zs"
        "pr \<in> set (concat (map (\<lambda>nny. concat (map (\<lambda>nnx. ?NP nnx nny nnz) ?Xs)) ?Ys))"
      for nnz pr
    proof -
      from that(2) obtain nny nnx where "nny \<in> set ?Ys" "nnx \<in> set ?Xs"
        "pr \<in> set (?NP nnx nny nnz)"
        by auto
      from b [OF this(3) this(2) this(1) that(1)] show ?thesis by simp
    qed
  qed
  then show ?thesis
    by (simp add: main_cell_pairs_def Let_def)
qed

lemma main_cell_pairs_bins:
  assumes L: "1 \<le> binning cs"
    and m: "pr \<in> set (main_cell_pairs (binning cs) (bucket N ps cs) c0 c1 x y z)"
    and r: "0 \<le> x" "x < binning cs" "0 \<le> y" "y < binning cs" "0 \<le> z" "z < binning cs"
  shows "bins cs (ps ! nat (fst pr)) = (x, y, z)"
proof -
  obtain i j where pr: "pr = (i, j)" by (cases pr)
  from main_cell_pairs_mem [OF m [unfolded pr]] obtain nnx nny nnz where
    "(i, j) \<in> set (neighbour_pairs (binning cs) (bucket N ps cs)
        (x + binning cs * y + binning cs * binning cs * z) nnx nny nnz)"
    by blast
  from neighbour_pairs_mem [OF this]
  have "cell_number cs (ps ! nat i) = x + y * binning cs + z * (binning cs * binning cs)"
    by (simp add: mult.commute)
  from cell_number_decode [OF L r this] show ?thesis
    by (simp add: pr)
qed

lemma upto_range:
  fixes L :: int
  assumes "x \<in> set [0..L - 1]"
  shows "0 \<le> x" "x < L"
  using assms by simp_all

lemma distinct_cell_pairs:
  assumes L: "1 \<le> binning cs"
  shows "distinct (cell_pairs (binning cs) (bucket N ps cs) c0 c1)"
proof -
  let ?L = "binning cs"
  let ?M = "\<lambda>x y z. main_cell_pairs ?L (bucket N ps cs) c0 c1 x y z"
  let ?R = "[0..?L - 1]"
  let ?ib = "\<lambda>pr. bins cs (ps ! nat (fst pr))"
  have b: "?ib pr = (x, y, z)"
    if "pr \<in> set (?M x y z)" "x \<in> set ?R" "y \<in> set ?R" "z \<in> set ?R" for pr x y z
    using upto_range [OF that(2)] upto_range [OF that(3)] upto_range [OF that(4)]
    by (intro main_cell_pairs_bins [OF L that(1)])
  have d1: "distinct (concat (map (\<lambda>x. ?M x y z) ?R))" if "y \<in> set ?R" "z \<in> set ?R" for y z
  proof (rule distinct_concat_keyed [where key = "\<lambda>pr. fst (?ib pr)"])
    show "distinct ?R" by simp
    show "distinct (?M x y z)" for x by (rule distinct_main_cell_pairs [OF L])
    show "fst (?ib pr) = x" if "x \<in> set ?R" "pr \<in> set (?M x y z)" for x pr
      using b [OF that(2) that(1) \<open>y \<in> set ?R\<close> \<open>z \<in> set ?R\<close>] by simp
  qed
  have d2: "distinct (concat (map (\<lambda>y. concat (map (\<lambda>x. ?M x y z) ?R)) ?R))"
    if "z \<in> set ?R" for z
  proof (rule distinct_concat_keyed [where key = "\<lambda>pr. fst (snd (?ib pr))"])
    show "distinct ?R" by simp
    show "distinct (concat (map (\<lambda>x. ?M x y z) ?R))" if "y \<in> set ?R" for y
      by (rule d1 [OF that \<open>z \<in> set ?R\<close>])
    show "fst (snd (?ib pr)) = y"
      if "y \<in> set ?R" "pr \<in> set (concat (map (\<lambda>x. ?M x y z) ?R))" for y pr
    proof -
      from that(2) obtain x where "x \<in> set ?R" "pr \<in> set (?M x y z)"
        by auto
      from b [OF this(2) this(1) that(1) \<open>z \<in> set ?R\<close>] show ?thesis by simp
    qed
  qed
  have "distinct (concat (map (\<lambda>z. concat (map (\<lambda>y. concat (map (\<lambda>x. ?M x y z) ?R)) ?R)) ?R))"
  proof (rule distinct_concat_keyed [where key = "\<lambda>pr. snd (snd (?ib pr))"])
    show "distinct ?R" by simp
    show "distinct (concat (map (\<lambda>y. concat (map (\<lambda>x. ?M x y z) ?R)) ?R))"
      if "z \<in> set ?R" for z
      by (rule d2 [OF that])
    show "snd (snd (?ib pr)) = z"
      if "z \<in> set ?R" "pr \<in> set (concat (map (\<lambda>y. concat (map (\<lambda>x. ?M x y z) ?R)) ?R))"
      for z pr
    proof -
      from that(2) obtain y x where "y \<in> set ?R" "x \<in> set ?R" "pr \<in> set (?M x y z)"
        by auto
      from b [OF this(3) this(2) this(1) that(1)] show ?thesis by simp
    qed
  qed
  then show ?thesis
    by (simp add: cell_pairs_def)
qed

lemma cell_pairs_sound:
  assumes m: "(i, j) \<in> set (cell_pairs (binning cs) (bucket N ps cs) c0 c1)"
  shows "0 \<le> i \<and> i < N \<and> 0 \<le> j \<and> j < N \<and> i \<noteq> j \<and>
         cell_number cs (ps ! nat i) \<le> cell_number cs (ps ! nat j) \<and>
         (cell_number cs (ps ! nat i) = cell_number cs (ps ! nat j) \<longrightarrow> j < i)"
proof -
  from cell_pairs_mem [OF m] obtain x y z where
    "(i, j) \<in> set (main_cell_pairs (binning cs) (bucket N ps cs) c0 c1 x y z)"
    by blast
  from main_cell_pairs_mem [OF this] obtain t nnx nny nnz where
    n: "(i, j) \<in> set (neighbour_pairs (binning cs) (bucket N ps cs) t nnx nny nnz)"
    by blast
  from neighbour_pairs_mem [OF n] neighbour_pairs_order [OF n] show ?thesis
    by simp
qed

lemma in_concat_map: "x \<in> set xs \<Longrightarrow> e \<in> set (f x) \<Longrightarrow> e \<in> set (concat (map f xs))"
  by auto

lemma cell_pairs_complete:
  assumes L: "1 \<le> binning cs"
    and i: "0 \<le> i" "i < N" and j: "0 \<le> j" "j < N"
    and adj: "adjacent cs (ps ! nat i) (ps ! nat j)"
    and ord: "cell_number cs (ps ! nat i) < cell_number cs (ps ! nat j) \<or>
              cell_number cs (ps ! nat i) = cell_number cs (ps ! nat j) \<and> j < i"
    and c: "c0 \<le> cell_number cs (ps ! nat i)" "cell_number cs (ps ! nat i) < c1"
  shows "(i, j) \<in> set (cell_pairs (binning cs) (bucket N ps cs) c0 c1)"
proof -
  let ?L = "binning cs"
  let ?B = "bucket N ps cs"
  obtain x y z where bi: "bins cs (ps ! nat i) = (x, y, z)"
    by (cases "bins cs (ps ! nat i)") auto
  obtain nnx nny nnz where bj: "bins cs (ps ! nat j) = (nnx, nny, nnz)"
    by (cases "bins cs (ps ! nat j)") auto
  note ri = bins_range [OF L bi] and rj = bins_range [OF L bj]
  define t where "t = x + ?L * y + ?L * ?L * z"
  define u where "u = nnx + nny * ?L + nnz * (?L * ?L)"
  have ti: "cell_number cs (ps ! nat i) = t"
    by (simp add: cell_number_bins bi t_def mult.commute)
  have uj: "cell_number cs (ps ! nat j) = u"
    by (simp add: cell_number_bins bj u_def)
  have it: "i \<in> set (?B t)" and ju: "j \<in> set (?B u)"
    using i j ti uj by (simp_all add: set_bucket)
  have np: "(i, j) \<in> set (neighbour_pairs ?L ?B t nnx nny nnz)"
  proof (cases "t = u")
    case True
    with ord ti uj have "j < i" by simp
    with it ju True have "(i, j) \<in> set (own_pairs (?B t))"
      by (simp add: own_pairs_sorted [OF sorted_bucket])
    with True show ?thesis
      by (simp add: neighbour_pairs_def u_def [symmetric])
  next
    case False
    with ord ti uj have "t < u" by simp
    with it ju show ?thesis
      by (simp add: neighbour_pairs_def u_def [symmetric] Let_def)
  qed
  have nb: "nnx \<in> set [max 0 (x - 1)..min ?L (x + 2) - 1]"
    "nny \<in> set [max 0 (y - 1)..min ?L (y + 2) - 1]"
    "nnz \<in> set [max 0 (z - 1)..min ?L (z + 2) - 1]"
  proof -
    have "bin_index cs (vec_x (p_r (ps ! nat i))) = x" "bin_index cs (vec_y (p_r (ps ! nat i))) = y"
      "bin_index cs (vec_z (p_r (ps ! nat i))) = z"
      "bin_index cs (vec_x (p_r (ps ! nat j))) = nnx" "bin_index cs (vec_y (p_r (ps ! nat j))) = nny"
      "bin_index cs (vec_z (p_r (ps ! nat j))) = nnz"
      using bi bj by (simp_all add: bins_def)
    with adj have "\<bar>x - nnx\<bar> \<le> 1" "\<bar>y - nny\<bar> \<le> 1" "\<bar>z - nnz\<bar> \<le> 1"
      by (simp_all add: adjacent_def)
    with ri rj show "nnx \<in> set [max 0 (x - 1)..min ?L (x + 2) - 1]"
      "nny \<in> set [max 0 (y - 1)..min ?L (y + 2) - 1]"
      "nnz \<in> set [max 0 (z - 1)..min ?L (z + 2) - 1]"
      by (auto simp: abs_le_iff)
  qed
  have ne: "?B t \<noteq> []"
    using it by auto
  let ?Xs = "[max 0 (x - 1)..min ?L (x + 2) - 1]"
  let ?Ys = "[max 0 (y - 1)..min ?L (y + 2) - 1]"
  let ?Zs = "[max 0 (z - 1)..min ?L (z + 2) - 1]"
  have 1: "(i, j) \<in> set (concat (map (\<lambda>nnx. neighbour_pairs ?L ?B t nnx nny nnz) ?Xs))"
    by (rule in_concat_map [where f = "\<lambda>nnx. neighbour_pairs ?L ?B t nnx nny nnz", OF nb(1) np])
  have 2: "(i, j) \<in> set (concat (map (\<lambda>nny.
      concat (map (\<lambda>nnx. neighbour_pairs ?L ?B t nnx nny nnz) ?Xs)) ?Ys))"
    by (rule in_concat_map [where f = "\<lambda>nny.
      concat (map (\<lambda>nnx. neighbour_pairs ?L ?B t nnx nny nnz) ?Xs)", OF nb(2) 1])
  have 3: "(i, j) \<in> set (concat (map (\<lambda>nnz. concat (map (\<lambda>nny.
      concat (map (\<lambda>nnx. neighbour_pairs ?L ?B t nnx nny nnz) ?Xs)) ?Ys)) ?Zs))"
    by (rule in_concat_map [where f = "\<lambda>nnz. concat (map (\<lambda>nny.
      concat (map (\<lambda>nnx. neighbour_pairs ?L ?B t nnx nny nnz) ?Xs)) ?Ys)", OF nb(3) 2])
  have m: "(i, j) \<in> set (main_cell_pairs ?L ?B c0 c1 x y z)"
    unfolding main_cell_pairs_def Let_def t_def [symmetric]
    using ne c ti 3 by (simp only: not_le [symmetric] if_False simp_thms)
  have r: "x \<in> set [0..?L - 1]" "y \<in> set [0..?L - 1]" "z \<in> set [0..?L - 1]"
    using ri by simp_all
  let ?M = "main_cell_pairs ?L ?B c0 c1"
  have 4: "(i, j) \<in> set (concat (map (\<lambda>x. ?M x y z) [0..?L - 1]))"
    by (rule in_concat_map [where f = "\<lambda>x. ?M x y z", OF r(1) m])
  have 5: "(i, j) \<in> set (concat (map (\<lambda>y. concat (map (\<lambda>x. ?M x y z) [0..?L - 1]))
      [0..?L - 1]))"
    by (rule in_concat_map [where f = "\<lambda>y. concat (map (\<lambda>x. ?M x y z) [0..?L - 1])",
          OF r(2) 4])
  show ?thesis
    unfolding cell_pairs_def
    by (rule in_concat_map [where f = "\<lambda>z. concat (map (\<lambda>y.
          concat (map (\<lambda>x. ?M x y z) [0..?L - 1])) [0..?L - 1])", OF r(3) 5])
qed

section \<open>Particles within the cutoff lie in neighbouring cells\<close>

lemma floor_close:
  fixes u w :: real
  assumes "\<bar>u - w\<bar> < 1"
  shows "\<bar>\<lfloor>u\<rfloor> - \<lfloor>w\<rfloor>\<bar> \<le> 1"
  using assms by linarith

lemma bin_index_close:
  assumes dr: "0 < dr cs" and d: "\<bar>a - b\<bar> < dr cs"
  shows "\<bar>bin_index cs a - bin_index cs b\<bar> \<le> 1"
proof -
  have "(a + 1) / dr cs - (b + 1) / dr cs = (a - b) / dr cs"
    by (simp add: diff_divide_distrib add_divide_distrib)
  then have "\<bar>(a + 1) / dr cs - (b + 1) / dr cs\<bar> = \<bar>a - b\<bar> / dr cs"
    using dr by simp
  also have "\<dots> < 1"
    using dr d by simp
  finally have "\<bar>\<lfloor>(a + 1) / dr cs\<rfloor> - \<lfloor>(b + 1) / dr cs\<rfloor>\<bar> \<le> 1"
    by (rule floor_close)
  then show ?thesis
    unfolding bin_index_def by linarith
qed

lemma coordinate_close:
  fixes a b s rc d :: real
  assumes "(a - b) * (a - b) + s < rc * rc" "0 \<le> s" "\<bar>rc\<bar> \<le> d"
  shows "\<bar>a - b\<bar> < d"
proof -
  have "\<bar>a - b\<bar>\<^sup>2 < \<bar>rc\<bar>\<^sup>2"
    using assms(1,2) by (simp add: power2_eq_square)
  then have "\<bar>a - b\<bar> < \<bar>rc\<bar>"
    by (rule power2_less_imp_less) simp
  with assms(3) show ?thesis by linarith
qed

lemma within_cutoff_adjacent:
  assumes ok: "Cells_ok cs" and rc: "\<bar>rc\<bar> \<le> dr cs" and w: "within_cutoff rc p q"
  shows "adjacent cs p q"
proof -
  have dr: "0 < dr cs"
    using ok by (simp add: Cells_ok_def)
  let ?dx = "vec_x (p_r p) - vec_x (p_r q)"
  let ?dy = "vec_y (p_r p) - vec_y (p_r q)"
  let ?dz = "vec_z (p_r p) - vec_z (p_r q)"
  from w have r2: "?dx * ?dx + ?dy * ?dy + ?dz * ?dz < rc * rc"
    by (simp add: within_cutoff_def vec_defs)
  have "\<bar>?dx\<bar> < dr cs"
    using r2 rc by (intro coordinate_close [where s = "?dy * ?dy + ?dz * ?dz"]) simp_all
  moreover have "\<bar>?dy\<bar> < dr cs"
    using r2 rc by (intro coordinate_close [where s = "?dx * ?dx + ?dz * ?dz"]) simp_all
  moreover have "\<bar>?dz\<bar> < dr cs"
    using r2 rc by (intro coordinate_close [where s = "?dx * ?dx + ?dy * ?dy"]) simp_all
  ultimately show ?thesis
    unfolding adjacent_def by (intro conjI bin_index_close [OF dr])
qed

lemma cell_pairs_adjacent:
  assumes L: "1 \<le> binning cs"
    and m: "(i, j) \<in> set (cell_pairs (binning cs) (bucket N ps cs) c0 c1)"
  shows "adjacent cs (ps ! nat i) (ps ! nat j)"
proof -
  from cell_pairs_mem [OF m] obtain x y z where
    r: "x \<in> set [0..binning cs - 1]" "y \<in> set [0..binning cs - 1]" "z \<in> set [0..binning cs - 1]"
    and mm: "(i, j) \<in> set (main_cell_pairs (binning cs) (bucket N ps cs) c0 c1 x y z)"
    by auto
  from main_cell_pairs_mem [OF mm] obtain nnx nny nnz where
    n: "nnx \<in> set [max 0 (x - 1)..min (binning cs) (x + 2) - 1]"
      "nny \<in> set [max 0 (y - 1)..min (binning cs) (y + 2) - 1]"
      "nnz \<in> set [max 0 (z - 1)..min (binning cs) (z + 2) - 1]"
    and np: "(i, j) \<in> set (neighbour_pairs (binning cs) (bucket N ps cs)
        (x + binning cs * y + binning cs * binning cs * z) nnx nny nnz)"
    by auto
  have bi: "bins cs (ps ! nat i) = (x, y, z)"
    using main_cell_pairs_bins [OF L mm] upto_range [OF r(1)] upto_range [OF r(2)]
      upto_range [OF r(3)] by simp
  have bj: "bins cs (ps ! nat j) = (nnx, nny, nnz)"
    using neighbour_pairs_bins [OF L np] neighbour_range [OF n(1)] neighbour_range [OF n(2)]
      neighbour_range [OF n(3)] by simp
  have "\<bar>x - nnx\<bar> \<le> 1" "\<bar>y - nny\<bar> \<le> 1" "\<bar>z - nnz\<bar> \<le> 1"
    using neighbour_range [OF n(1)] neighbour_range [OF n(2)] neighbour_range [OF n(3)]
    by linarith+
  moreover have "bin_index cs (vec_x (p_r (ps ! nat i))) = x"
    "bin_index cs (vec_y (p_r (ps ! nat i))) = y"
    "bin_index cs (vec_z (p_r (ps ! nat i))) = z"
    "bin_index cs (vec_x (p_r (ps ! nat j))) = nnx"
    "bin_index cs (vec_y (p_r (ps ! nat j))) = nny"
    "bin_index cs (vec_z (p_r (ps ! nat j))) = nnz"
    using bi bj by (simp_all add: bins_def)
  ultimately show ?thesis
    by (simp add: adjacent_def)
qed

section \<open>The cell sweep against the brute force sweep\<close>

lemma norm_pair_cases: "norm_pair (i, j) = (i, j) \<and> i \<le> j \<or> norm_pair (i, j) = (j, i) \<and> j < i"
  by (auto simp: norm_pair_def min_def max_def)

lemma mag2_sub_sym: "vec_magnitude2 (vec_sub a b) = vec_magnitude2 (vec_sub b a)"
  by (simp add: vec_defs algebra_simps)

lemma within_cutoff_sym: "within_cutoff rc p q = within_cutoff rc q p"
  by (simp add: within_cutoff_def mag2_sub_sym [of "p_r p"])

lemma pair_energy_sym: "pair_energy rc p q = pair_energy rc q p"
  by (simp add: pair_energy_def mag2_sub_sym [of "p_r p"])

lemma pair_force_swap: "pair_force rc g q p = vec_sclr (- 1) (pair_force rc g p q)"
  by (simp add: pair_force_def Let_def mag2_sub_sym [of "p_r q"])
    (simp add: vec_defs algebra_simps)

lemma vec_sclr_neg_neg: "vec_sclr (- 1) (vec_sclr (- 1) a) = a"
  by (simp add: vec_sclr_def)

lemma contrib_swap:
  assumes "i \<noteq> j"
  shows "contrib rc g ps k (j, i) = contrib rc g ps k (i, j)"
  using assms
  by (simp add: contrib_def Let_def within_cutoff_sym [of rc "ps ! nat j"]
      pair_force_swap [of rc g "ps ! nat i" "ps ! nat j"] vec_sclr_neg_neg)

lemma contrib_norm:
  assumes "fst pr \<noteq> snd pr"
  shows "contrib rc g ps k (norm_pair pr) = contrib rc g ps k pr"
proof -
  obtain i j where pr: "pr = (i, j)" by (cases pr)
  from norm_pair_cases [of i j] assms show ?thesis
    by (auto simp: pr contrib_swap)
qed

lemma interacting_norm: "interacting rc ps (norm_pair pr) = interacting rc ps pr"
proof -
  obtain i j where pr: "pr = (i, j)" by (cases pr)
  from norm_pair_cases [of i j] show ?thesis
    by (auto simp: pr interacting_def within_cutoff_sym [of rc "ps ! nat j"])
qed

lemma energy_norm:
  "pair_energy rc (ps ! nat (fst (norm_pair pr))) (ps ! nat (snd (norm_pair pr))) =
   pair_energy rc (ps ! nat (fst pr)) (ps ! nat (snd pr))"
proof -
  obtain i j where pr: "pr = (i, j)" by (cases pr)
  from norm_pair_cases [of i j] show ?thesis
    by (auto simp: pr pair_energy_sym [of rc "ps ! nat j"])
qed

lemma contrib_far: "\<not> interacting rc ps pr \<Longrightarrow> contrib rc g ps k pr = VEC_ZERO"
  by (simp add: contrib_def interacting_def)

lemma vec_zero_inc: "vec_inc VEC_ZERO a = a"
  by (simp add: vec_inc_def VEC_ZERO_def)

lemma vsum_filter:
  assumes "\<And>x. x \<in> set xs \<Longrightarrow> \<not> P x \<Longrightarrow> F x = VEC_ZERO"
  shows "vsum (map F (filter P xs)) = vsum (map F xs)"
  using assms by (induction xs) (simp_all add: vsum_Cons vec_zero_inc)

text \<open>
  Within the cutoff, the cell sweep and the brute force sweep meet the same pairs, each
  one once.
\<close>

lemma cell_brute_mset:
  assumes ok: "Cells_ok cs" and rc: "\<bar>rc\<bar> \<le> dr cs"
    and same: "\<forall>k < nat N. p_r (ps' ! k) = p_r (ps ! k)"
  shows "mset (map norm_pair (filter (interacting rc ps')
           (cell_pairs (binning cs) (bucket N ps cs) 0 (num_cells cs)))) =
         mset (filter (interacting rc ps') (brute_pairs N 0 N))"
proof -
  let ?Pc = "cell_pairs (binning cs) (bucket N ps cs) 0 (num_cells cs)"
  let ?Pb = "brute_pairs N 0 N"
  let ?int = "interacting rc ps'"
  let ?cell = "\<lambda>i. cell_number cs (ps ! nat i)"
  have L: "1 \<le> binning cs"
    using ok by (simp add: Cells_ok_def)
  note sound = cell_pairs_sound [where cs = cs and N = N and ps = ps and ?c0.0 = 0
      and ?c1.0 = "num_cells cs"]
  have inj: "inj_on norm_pair (set (filter ?int ?Pc))"
  proof (rule inj_onI)
    fix p q assume p: "p \<in> set (filter ?int ?Pc)" and q: "q \<in> set (filter ?int ?Pc)"
      and eq: "norm_pair p = norm_pair q"
    obtain i j where pij: "p = (i, j)" by (cases p)
    obtain i' j' where qij: "q = (i', j')" by (cases q)
    from p q have "(i, j) \<in> set ?Pc" "(i', j') \<in> set ?Pc"
      by (simp_all add: pij qij)
    from sound [OF this(1)] sound [OF this(2)] eq
      norm_pair_cases [of i j] norm_pair_cases [of i' j']
    show "p = q"
      unfolding pij qij by auto
  qed
  have d1: "distinct (map norm_pair (filter ?int ?Pc))"
    using distinct_cell_pairs [OF L] inj by (simp add: distinct_map)
  have d2: "distinct (filter ?int ?Pb)"
    using distinct_brute_pairs by simp
  have r: "p_r (ps' ! nat i) = p_r (ps ! nat i)" if "0 \<le> i" "i < N" for i
    using same that by simp
  have "set (map norm_pair (filter ?int ?Pc)) = set (filter ?int ?Pb)"
  proof (intro equalityI subsetI)
    fix e assume "e \<in> set (map norm_pair (filter ?int ?Pc))"
    then obtain p where p: "p \<in> set ?Pc" "?int p" "e = norm_pair p"
      by auto
    obtain i j where pij: "p = (i, j)" by (cases p)
    from sound [OF p(1) [unfolded pij]] norm_pair_cases [of i j]
    have "e \<in> set ?Pb"
      unfolding p(3) pij set_brute_pairs by auto
    moreover have "?int e"
      using p(2) by (simp add: p(3) interacting_norm)
    ultimately show "e \<in> set (filter ?int ?Pb)"
      by simp
  next
    fix e assume e: "e \<in> set (filter ?int ?Pb)"
    obtain a b where ab: "e = (a, b)" by (cases e)
    from e have range: "0 \<le> a" "a < b" "b < N" and int: "?int (a, b)"
      by (simp_all add: ab set_brute_pairs)
    have w: "within_cutoff rc (ps ! nat a) (ps ! nat b)"
      using int r [of a] r [of b] range by (simp add: interacting_def within_cutoff_def)
    have adj: "adjacent cs (ps ! nat a) (ps ! nat b)"
      by (rule within_cutoff_adjacent [OF ok rc w])
    have adj': "adjacent cs (ps ! nat b) (ps ! nat a)"
      using adj by (simp add: adjacent_def abs_minus_commute)
    have nc: "\<And>i. 0 \<le> ?cell i" "\<And>i. ?cell i < num_cells cs"
      using cell_number_range [OF ok] by simp_all
    consider "?cell a < ?cell b" | "?cell b < ?cell a \<or> ?cell b = ?cell a"
      by linarith
    then have "(a, b) \<in> set ?Pc \<or> (b, a) \<in> set ?Pc"
    proof cases
      case 1
      then have "(a, b) \<in> set ?Pc"
        using range nc by (intro cell_pairs_complete [OF L _ _ _ _ adj]) simp_all
      then show ?thesis ..
    next
      case 2
      then have "(b, a) \<in> set ?Pc"
        using range nc by (intro cell_pairs_complete [OF L _ _ _ _ adj']) auto
      then show ?thesis ..
    qed
    then obtain p where p: "p \<in> set ?Pc" "norm_pair p = (a, b)"
      using range by (auto simp: norm_pair_def)
    then have "?int p"
      using int interacting_norm [of rc ps' p] by simp
    with p have "p \<in> set (filter ?int ?Pc)"
      by simp
    then have "norm_pair p \<in> set (map norm_pair (filter ?int ?Pc))"
      by (simp only: set_map) (rule imageI)
    then show "e \<in> set (map norm_pair (filter ?int ?Pc))"
      by (simp only: ab p(2))
  qed
  with d1 d2 show ?thesis
    by (simp only: set_eq_iff_mset_eq_distinct)
qed

lemma sum_list_mset_cong:
  fixes F :: "'a \<Rightarrow> real"
  assumes "mset xs = mset ys"
  shows "sum_list (map F xs) = sum_list (map F ys)"
proof -
  have "mset (map F xs) = mset (map F ys)"
    using assms by simp
  then have "sum_mset (mset (map F xs)) = sum_mset (mset (map F ys))"
    by (simp only:)
  then show ?thesis
    by (simp only: sum_mset_sum_list)
qed

lemma sweeps_equal:
  assumes M: "mset (map norm_pair (filter (interacting rc ps) Xc)) =
              mset (filter (interacting rc ps) Xb)"
    and neq: "\<forall>pr \<in> set Xc. fst pr \<noteq> snd pr"
  shows "add_forces rc g ps Xc ps' = add_forces rc g ps Xb ps'"
    and "add_stats rc ps Xc st = (add_stats rc ps Xb st)
           \<lparr>ww_counter := ww_counter st + int (length Xc)\<rparr>"
proof -
  let ?int = "interacting rc ps"
  let ?E = "\<lambda>pr. pair_energy rc (ps ! nat (fst pr)) (ps ! nat (snd pr))"
  have "vsum (map (contrib rc g ps k) Xc) = vsum (map (contrib rc g ps k) Xb)" for k
  proof -
    let ?F = "contrib rc g ps k"
    have "vsum (map ?F Xc) = vsum (map ?F (filter ?int Xc))"
      by (rule vsum_filter [symmetric]) (rule contrib_far)
    also have "map ?F (filter ?int Xc) = map ?F (map norm_pair (filter ?int Xc))"
      using neq by (simp add: contrib_norm)
    also have "vsum \<dots> = vsum (map ?F (filter ?int Xb))"
      using M by (intro vsum_mset) (metis mset_map)
    also have "\<dots> = vsum (map ?F Xb)"
      by (rule vsum_filter) (rule contrib_far)
    finally show ?thesis .
  qed
  then show "add_forces rc g ps Xc ps' = add_forces rc g ps Xb ps'"
    by (simp add: add_forces_def)
  have "length (map norm_pair (filter ?int Xc)) = length (filter ?int Xb)"
    using M by (rule mset_eq_length)
  then have len: "length (filter ?int Xc) = length (filter ?int Xb)"
    by simp
  have "map ?E (filter ?int Xc) = map ?E (map norm_pair (filter ?int Xc))"
    by (simp add: energy_norm)
  then have "sum_list (map ?E (filter ?int Xc)) = sum_list (map ?E (map norm_pair (filter ?int Xc)))"
    by (simp only:)
  also have "\<dots> = sum_list (map ?E (filter ?int Xb))"
    by (rule sum_list_mset_cong [OF M])
  finally have "sum_list (map ?E (filter ?int Xc)) = sum_list (map ?E (filter ?int Xb))" .
  with len show "add_stats rc ps Xc st = (add_stats rc ps Xb st)
           \<lparr>ww_counter := ww_counter st + int (length Xc)\<rparr>"
    by (simp add: add_stats_def)
qed

lemma brute_forces_closed:
  assumes "N = int (length ps)"
  shows "dvs_calc_brute_forces N 0 N rc g (ps, st) =
           Some (add_forces rc g ps (brute_pairs N 0 N) ps, add_stats rc ps (brute_pairs N 0 N) st)"
proof -
  have "\<forall>pr \<in> set (brute_pairs N 0 N). valid_pair ps pr"
    using assms by (auto simp: set_brute_pairs valid_pair_def)
  from ofold_kernel [OF this same_rv_refl] show ?thesis
    by (simp add: brute_forces_ofold)
qed

text \<open>
  The two sweeps in exact arithmetic. Let the grid have binning \<open>L \<ge> 1\<close> and cell edge
  \<open>dr = 2/L\<close>, let it be populated from the \<open>N\<close> particles of the array, and let
  \<open>|rc| \<le> dr\<close>. Then \<open>dvs_calc_forces\<close> over all cells and \<open>dvs_calc_brute_forces\<close> over all
  particles both return, with the same \<open>real_ww_counter\<close>, the same \<open>E_pot\<close> and the same
  accelerations (only \<open>ww_counter\<close> differs). The statement rests on \<open>bin_index\<close> being the
  exact floor of the exact quotient \<open>(c + 1) / dr\<close>. The C code rounds the sum \<open>c + 1.0\<close> and
  the quotient: a quotient just below a whole number can round up to it and put the
  particle into the next cell, so the statement does not carry over to the doubles of
  the C code.
\<close>

theorem cell_sweep_matches_brute:
  assumes "Cells_ok cs0" and "N = int (length ps0)"
    and "dvs_populate_cells N ps0 cs0 = Some (ps, cs)"
    and "\<bar>rc\<bar> \<le> dr cs0"
  shows "\<exists>ps1 st1 ps2 st2.
           dvs_calc_forces cs 0 (num_cells cs) rc g (ps, st) = Some (ps1, st1) \<and>
           dvs_calc_brute_forces N 0 N rc g (ps, st) = Some (ps2, st2) \<and>
           real_ww_counter st1 = real_ww_counter st2 \<and> E_pot st1 = E_pot st2 \<and>
           map p_a ps1 = map p_a ps2 \<and> ps1 = ps2"
proof -
  let ?Pc = "cell_pairs (binning cs0) (bucket N ps0 cs0) 0 (num_cells cs)"
  let ?Pb = "brute_pairs N 0 N"
  have N': "N \<le> int (length ps0)"
    using assms(2) by simp
  note l = populate_cells_linked [OF assms(1) N' assms(3)]
  have N'': "N = int (length ps)"
    using assms(2) l(1) by simp
  have c: "dvs_calc_forces cs 0 (num_cells cs) rc g (ps, st) =
          Some (add_forces rc g ps ?Pc ps, add_stats rc ps ?Pc st)"
    by (rule calc_forces_closed [OF assms(1) N' assms(3)])
  have b: "dvs_calc_brute_forces N 0 N rc g (ps, st) =
          Some (add_forces rc g ps ?Pb ps, add_stats rc ps ?Pb st)"
    by (rule brute_forces_closed [OF N''])
  have same: "\<forall>k < nat N. p_r (ps ! k) = p_r (ps0 ! k)"
    using l(7) assms(2) by simp
  have M: "mset (map norm_pair (filter (interacting rc ps) ?Pc)) =
           mset (filter (interacting rc ps) ?Pb)"
    using cell_brute_mset [OF assms(1) assms(4) same] by (simp add: l(4))
  have neq: "\<forall>pr \<in> set ?Pc. fst pr \<noteq> snd pr"
  proof
    fix pr assume "pr \<in> set ?Pc"
    from cell_pairs_valid [OF N', THEN bspec, OF this] show "fst pr \<noteq> snd pr"
      by (simp add: valid_pair_def)
  qed
  note e = sweeps_equal [OF M neq]
  show ?thesis
    unfolding c b by (simp add: e(1) e(2) [of st])
qed

section \<open>A time step of zero\<close>

text \<open>
  With \<open>dt = 0\<close> and a particle at rest on the unit sphere the predicted position is the old
  one, so the multiplier is \<open>- 1 + \<surd>(1 - 1 + 1) = 0\<close>, and the velocity update multiplies
  \<open>old_r\<close> by \<open>lambda / dt = 0 / 0\<close>.
\<close>

lemma advance_body_ieee_zero_dt:
  assumes "at_rest_on_sphere p"
  shows "lambda_ieee (d_r p) (predict_ieee (Fin 0) (Fin 0) p) = Fin 0"
    and "d_r (advance_body_ieee (Fin 0) (Fin 0) p) = d_r p"
    and "d_v (advance_body_ieee (Fin 0) (Fin 0) p) =
           \<lparr>dvec_x = NaN, dvec_y = NaN, dvec_z = NaN\<rparr>"
proof -
  from assms obtain x y z where r: "d_r p = \<lparr>dvec_x = Fin x, dvec_y = Fin y, dvec_z = Fin z\<rparr>"
    and u: "x * x + y * y + z * z = 1"
    and v: "d_v p = DVEC_ZERO" and a: "d_a p = DVEC_ZERO"
    by (cases "d_r p" rule: dvec.cases; cases "dvec_x (d_r p)"; cases "dvec_y (d_r p)";
        cases "dvec_z (d_r p)") (auto simp: at_rest_on_sphere_def)
  have pr: "d_r (predict_ieee (Fin 0) (Fin 0) p) = d_r p"
    "d_v (predict_ieee (Fin 0) (Fin 0) p) = DVEC_ZERO"
    by (simp_all add: predict_ieee_def Let_def r v a dvec_inc_def dvec_sclr_def DVEC_ZERO_def)
  show l: "lambda_ieee (d_r p) (predict_ieee (Fin 0) (Fin 0) p) = Fin 0"
    using u by (simp add: lambda_ieee_def Let_def pr r dvec_dot_def dsub_def)
  show "d_r (advance_body_ieee (Fin 0) (Fin 0) p) = d_r p"
    unfolding advance_body_ieee_def Let_def l
    by (simp add: pr) (simp add: r dvec_inc_def dvec_sclr_def)
  show "d_v (advance_body_ieee (Fin 0) (Fin 0) p) =
           \<lparr>dvec_x = NaN, dvec_y = NaN, dvec_z = NaN\<rparr>"
    unfolding advance_body_ieee_def Let_def l
    by (simp add: pr) (simp add: r dvec_inc_def dvec_sclr_def DVEC_ZERO_def)
qed

text \<open>
  Claim C10. \<open>dvs_advance\<close> has no guard against \<open>dt = 0\<close>. For an array whose first \<open>N\<close>
  particles have finite positions on the unit sphere, zero velocities and zero
  accelerations, the call with \<open>dt = 0\<close> returns; for each of these particles the computed
  \<open>lambda\<close> is \<open>0\<close>, the quotient \<open>lambda / dt\<close> is \<open>0 / 0 = NaN\<close>, the position is unchanged
  and all three components of the velocity are \<open>NaN\<close>.
\<close>

theorem advance_zero_dt_nan:
  assumes "N \<le> int (length ps)" and "\<forall>i < nat N. at_rest_on_sphere (ps ! i)"
  shows "\<exists>ps'. dvs_advance_ieee N ps (Fin 0) = Some ps' \<and> length ps' = length ps \<and>
           (\<forall>i < nat N.
              lambda_ieee (d_r (ps ! i)) (predict_ieee (Fin 0) (Fin 0) (ps ! i)) = Fin 0 \<and>
              ddiv (Fin 0) (Fin 0) = NaN \<and>
              d_r (ps' ! i) = d_r (ps ! i) \<and>
              d_v (ps' ! i) = \<lparr>dvec_x = NaN, dvec_y = NaN, dvec_z = NaN\<rparr>)"
proof -
  have half: "dmul (Fin 0.5) (Fin 0) = Fin 0"
    by simp
  define f where "f = advance_body_ieee (Fin 0) (Fin 0)"
  define r where "r = map f (take (nat N) ps) @ drop (nat N) ps"
  have eq: "dvs_advance_ieee N ps (Fin 0) = Some r"
    using for_loop_modify [OF assms(1)]
    by (simp only: dvs_advance_ieee_def r_def f_def Let_def half)
  have len: "length r = length ps" and nth: "\<And>i. i < nat N \<Longrightarrow> r ! i = f (ps ! i)"
    unfolding r_def using prefix_map_nth [OF assms(1)] by blast+
  have "lambda_ieee (d_r (ps ! i)) (predict_ieee (Fin 0) (Fin 0) (ps ! i)) = Fin 0 \<and>
        d_r (f (ps ! i)) = d_r (ps ! i) \<and>
        d_v (f (ps ! i)) = \<lparr>dvec_x = NaN, dvec_y = NaN, dvec_z = NaN\<rparr>" if "i < nat N" for i
    unfolding f_def using advance_body_ieee_zero_dt [of "ps ! i"] assms(2) that by blast
  then show ?thesis
    unfolding eq using len by (simp add: nth)
qed

theorem advance_zero_dt_nan_witness:
  "(1::int) \<le> int (length [D0]) \<and> at_rest_on_sphere D0 \<and>
   (\<exists>ps'. dvs_advance_ieee 1 [D0] (Fin 0) = Some ps' \<and>
      d_r (ps' ! 0) = d_r D0 \<and> d_v (ps' ! 0) = \<lparr>dvec_x = NaN, dvec_y = NaN, dvec_z = NaN\<rparr>)"
proof -
  have h: "(1::int) \<le> int (length [D0])" "\<forall>i < nat 1. at_rest_on_sphere ([D0] ! i)"
    by (simp_all add: at_rest_on_sphere_def D0_def)
  from advance_zero_dt_nan [OF h] h show ?thesis
    by auto
qed

end
